theory Spec2Isabelle
  imports Main "HOL-Library.Char_ord" "HOL-Library.Multiset"
begin

section \<open>Characters, C strings and the allocator\<close>

text \<open>
  A C string is modelled by the list of its characters before the terminating NUL, a
  pointer that may be NULL by an \<open>option\<close>. The program never calls \<open>setlocale\<close>, so the
  \<open><ctype.h>\<close> functions are those of the "C" locale: only the ASCII letters are
  alphabetic. Lengths, counters and table entries are far below \<open>2^31\<close> for every input
  that fits in memory, so C's \<open>int\<close> and \<open>size_t\<close> are modelled by \<open>int\<close> and \<open>nat\<close>.
\<close>

definition isupper :: "char \<Rightarrow> bool" where
  "isupper c = (CHR ''A'' \<le> c \<and> c \<le> CHR ''Z'')"

definition islower :: "char \<Rightarrow> bool" where
  "islower c = (CHR ''a'' \<le> c \<and> c \<le> CHR ''z'')"

definition isalpha :: "char \<Rightarrow> bool" where
  "isalpha c = (isupper c \<or> islower c)"

text \<open>
  \<open>tolower\<close> adds 32 to an uppercase letter. Bit 5 (value 32) is clear in every uppercase
  letter, so adding 32 sets that bit and leaves the others.
\<close>

definition tolower :: "char \<Rightarrow> char" where
  "tolower c =
     (if isupper c
      then (case c of Char b0 b1 b2 b3 b4 b5 b6 b7 \<Rightarrow> Char b0 b1 b2 b3 b4 True b6 b7)
      else c)"

text \<open>
  The byte at index \<open>k\<close> of a C string. At \<open>k = length s\<close> it is the terminator; a read
  further out is undefined in C, and the model reads NUL there as well.
\<close>

definition c_nth :: "string \<Rightarrow> nat \<Rightarrow> char" where
  "c_nth s k = (if k < length s then s ! k else CHR 0x00)"

text \<open>
  \<open>malloc\<close> can fail. A call of a modelled function receives the outcomes of the
  allocation requests it will make, in order, as a list of booleans; requests beyond the
  end of the list succeed. \<open>no_failure\<close> says that no request of the call fails.
\<close>

type_synonym heap = "bool list"

fun malloc :: "heap \<Rightarrow> bool \<times> heap" where
  "malloc [] = (True, [])"
| "malloc (ok # h) = (ok, h)"

definition no_failure :: "heap \<Rightarrow> bool" where
  "no_failure h = list_all (\<lambda>ok. ok) h"

text \<open>
  The content of freshly allocated memory is unspecified. The model fills an \<open>int\<close> array
  with zeros; the loops that use such an array write every cell before they read it.
\<close>

definition fresh_ints :: "nat \<Rightarrow> int list" where
  "fresh_ints n = replicate n 0"

section \<open>Word normalisation and validation (file\_io.c)\<close>

text \<open>
  The loop of \<open>normalize_word\<close>: \<open>normalized\<close> is the part of the output buffer written
  so far (\<open>write_pos\<close> is its length).
\<close>

fun normalize_loop :: "string \<Rightarrow> string \<Rightarrow> string" where
  "normalize_loop [] normalized = normalized"
| "normalize_loop (c # rest) normalized =
     normalize_loop rest (if isalpha c then normalized @ [tolower c] else normalized)"

definition normalize_word :: "heap \<Rightarrow> string option \<Rightarrow> string option" where
  "normalize_word h word =
     (case word of
        None \<Rightarrow> None
      | Some w \<Rightarrow>
          if length w = 0 then None
          else if length w > 100 then None
          else if \<not> fst (malloc h) then None
          else (let normalized = normalize_loop w []
                in if length normalized = 0 then None else Some normalized))"

text \<open>
  The second loop of \<open>is_valid_word\<close>, from index 1: \<open>prev\<close> is \<open>word[i-1]\<close>.
\<close>

fun consecutive_loop :: "string \<Rightarrow> char \<Rightarrow> int \<Rightarrow> bool" where
  "consecutive_loop [] prev consecutive_count = True"
| "consecutive_loop (c # rest) prev consecutive_count =
     (if c = prev
      then (if consecutive_count + 1 > 3 then False
            else consecutive_loop rest c (consecutive_count + 1))
      else consecutive_loop rest c 1)"

definition is_valid_word :: "string option \<Rightarrow> bool" where
  "is_valid_word word =
     (case word of
        None \<Rightarrow> False
      | Some w \<Rightarrow>
          if length w = 0 then False
          else if \<not> list_all isalpha w then False
          else if length w < 2 \<or> length w > 50 then False
          else consecutive_loop (tl w) (hd w) 1)"

section \<open>The prefix dictionary (trie.c)\<close>

text \<open>
  A trie node owns its children, so the node graph is a tree and a datatype models it. The
  array \<open>children[26]\<close> is a list of 26 optional children (\<open>None\<close> is NULL).
\<close>

datatype TrieNode =
  TrieNode (children: "TrieNode option list") (is_end_of_word: bool) (word_count: int)

record Trie =
  root :: TrieNode
  total_words :: int
  memory_usage :: nat

text \<open>The sizes of the two structs on an LP64 platform.\<close>

definition sizeof_TrieNode :: nat where
  "sizeof_TrieNode = 216"

definition sizeof_Trie :: nat where
  "sizeof_Trie = 24"

text \<open>The array index of a letter: \<open>c - 'a'\<close>.\<close>

definition letter_index :: "char \<Rightarrow> nat" where
  "letter_index c = of_char c - of_char CHR ''a''"

definition trie_node_create :: "heap \<Rightarrow> TrieNode option \<times> heap" where
  "trie_node_create h =
     (case malloc h of
        (False, h') \<Rightarrow> (None, h')
      | (True, h') \<Rightarrow> (Some (TrieNode (replicate 26 None) False 0), h'))"

fun trie_node_memory_usage :: "TrieNode option \<Rightarrow> nat" where
  "trie_node_memory_usage None = 0"
| "trie_node_memory_usage (Some (TrieNode cs e wc)) =
     fold (\<lambda>child usage. if child \<noteq> None then usage + trie_node_memory_usage child else usage)
       cs sizeof_TrieNode"

definition trie_create :: "heap \<Rightarrow> Trie option" where
  "trie_create h =
     (case malloc h of
        (False, h1) \<Rightarrow> None
      | (True, h1) \<Rightarrow>
          (case trie_node_create h1 of
             (None, h2) \<Rightarrow> None
           | (Some r, h2) \<Rightarrow>
               Some \<lparr>root = r, total_words = 0,
                     memory_usage = sizeof_Trie + sizeof_TrieNode\<rparr>))"

text \<open>
  The loop of \<open>trie_insert\<close> and the statements after it. \<open>current\<close> is the node the
  loop stands on, \<open>mem\<close> and \<open>tw\<close> are \<open>trie->memory_usage\<close> and \<open>trie->total_words\<close>.
  The C code mutates the nodes in place; the model returns the updated subtree, also when
  the call returns false after having created nodes.
\<close>

fun insert_loop ::
  "string \<Rightarrow> TrieNode \<Rightarrow> nat \<Rightarrow> int \<Rightarrow> heap \<Rightarrow> bool \<times> TrieNode \<times> nat \<times> int" where
  "insert_loop [] current mem tw h =
     (if \<not> is_end_of_word current
      then (True, TrieNode (children current) True (word_count current + 1), mem, tw + 1)
      else (True, TrieNode (children current) (is_end_of_word current)
                    (word_count current + 1), mem, tw))"
| "insert_loop (ch # rest) current mem tw h =
     (let c = tolower ch in
      if c < CHR ''a'' \<or> c > CHR ''z'' then (False, current, mem, tw)
      else
        let index = letter_index c in
        (case children current ! index of
           None \<Rightarrow>
             (case trie_node_create h of
                (None, h') \<Rightarrow> (False, current, mem, tw)
              | (Some child, h') \<Rightarrow>
                  (case insert_loop rest child (mem + sizeof_TrieNode) tw h' of
                     (ok, child', mem', tw') \<Rightarrow>
                       (ok, TrieNode ((children current)[index := Some child'])
                              (is_end_of_word current) (word_count current), mem', tw')))
         | Some child \<Rightarrow>
             (case insert_loop rest child mem tw h of
                (ok, child', mem', tw') \<Rightarrow>
                  (ok, TrieNode ((children current)[index := Some child'])
                         (is_end_of_word current) (word_count current), mem', tw'))))"

text \<open>
  \<open>trie_insert\<close> returns its boolean together with the dictionary \<open>*trie\<close> as the call
  leaves it.
\<close>

definition trie_insert :: "heap \<Rightarrow> Trie option \<Rightarrow> string option \<Rightarrow> bool \<times> Trie option" where
  "trie_insert h trie word =
     (case (trie, word) of
        (Some t, Some w) \<Rightarrow>
          if length w = 0 then (False, trie)
          else (case insert_loop w (root t) (memory_usage t) (total_words t) h of
                  (ok, r, mem, tw) \<Rightarrow>
                    (ok, Some \<lparr>root = r, total_words = tw, memory_usage = mem\<rparr>))
      | _ \<Rightarrow> (False, trie))"

fun search_loop :: "string \<Rightarrow> TrieNode \<Rightarrow> bool" where
  "search_loop [] current = is_end_of_word current"
| "search_loop (ch # rest) current =
     (let c = tolower ch in
      if c < CHR ''a'' \<or> c > CHR ''z'' then False
      else
        let index = letter_index c in
        (case children current ! index of
           None \<Rightarrow> False
         | Some child \<Rightarrow> search_loop rest child))"

definition trie_search :: "Trie option \<Rightarrow> string option \<Rightarrow> bool" where
  "trie_search trie word =
     (case (trie, word) of
        (Some t, Some w) \<Rightarrow> if length w = 0 then False else search_loop w (root t)
      | _ \<Rightarrow> False)"

definition trie_get_memory_usage :: "Trie option \<Rightarrow> nat" where
  "trie_get_memory_usage trie =
     (case trie of
        None \<Rightarrow> 0
      | Some t \<Rightarrow> sizeof_Trie + trie_node_memory_usage (Some (root t)))"

text \<open>
  The enumeration stores the words in an array that it grows with \<open>realloc\<close>. The array
  is the list of its cells, \<open>None\<close> for a cell that holds NULL and for the NULL array; a
  fresh cell points to no string and is modelled by NULL. A write through the NULL array
  or past the last cell is undefined in C: such a run ends in a \<open>fault\<close>.
\<close>

datatype fault = InvalidWrite

type_synonym word_array = "string option list option"

text \<open>The call \<open>realloc\<close> of the array to \<open>n\<close> cells: NULL when the request fails.\<close>

definition realloc_words :: "heap \<Rightarrow> word_array \<Rightarrow> nat \<Rightarrow> word_array \<times> heap" where
  "realloc_words h words n =
     (case malloc h of
        (False, h') \<Rightarrow> (None, h')
      | (True, h') \<Rightarrow>
          (Some (case words of
                   None \<Rightarrow> replicate n None
                 | Some ws \<Rightarrow> take n ws @ replicate (n - length ws) None), h'))"

text \<open>
  The state of the traversal: the array \<open>words\<close>, \<open>count\<close>, \<open>capacity\<close> and the outcomes of
  the allocation requests still to come.
\<close>

type_synonym collect_state = "word_array \<times> nat \<times> nat \<times> heap"

text \<open>
  The assignment of a copy of \<open>prefix\<close> to cell \<open>count\<close>. When the copy cannot be
  allocated, the cell receives NULL and \<open>count\<close> stays. The boolean of the result says
  whether \<open>trie_collect_words\<close> has returned.
\<close>

fun write_word :: "string \<Rightarrow> collect_state \<Rightarrow> fault + bool \<times> collect_state" where
  "write_word prefix (None, count', capacity, h) = Inl InvalidWrite"
| "write_word prefix (Some ws, count', capacity, h) =
     (if count' < length ws
      then (case malloc h of
              (True, h') \<Rightarrow> Inr (False, (Some (ws[count' := Some prefix]), count' + 1, capacity, h'))
            | (False, h') \<Rightarrow> Inr (False, (Some (ws[count' := None]), count', capacity, h')))
      else Inl InvalidWrite)"

text \<open>
  The block under \<open>if (node->is_end_of_word)\<close>: the array grows when it is full, and the
  function returns when that fails, leaving the NULL array and the doubled capacity.
\<close>

fun store_word :: "string \<Rightarrow> collect_state \<Rightarrow> fault + bool \<times> collect_state" where
  "store_word prefix (words, count', capacity, h) =
     (if count' \<ge> capacity
      then (case realloc_words h words (capacity * 2) of
              (None, h') \<Rightarrow> Inr (True, (None, count', capacity * 2, h'))
            | (Some ws, h') \<Rightarrow> write_word prefix (Some ws, count', capacity * 2, h'))
      else write_word prefix (words, count', capacity, h))"

text \<open>
  The loop over \<open>i\<close> visits the 26 cells of \<open>children\<close> in order; a child whose prefix
  cannot be allocated is skipped with its subtree.
\<close>

function trie_collect_words ::
  "TrieNode option \<Rightarrow> string \<Rightarrow> collect_state \<Rightarrow> fault + collect_state" where
  "trie_collect_words None prefix st = Inr st"
| "trie_collect_words (Some (TrieNode cs e wc)) prefix st =
     (case (if e then store_word prefix st else Inr (False, st)) of
        Inl f \<Rightarrow> Inl f
      | Inr (True, st') \<Rightarrow> Inr st'
      | Inr (False, st') \<Rightarrow>
          fold (\<lambda>(i, child) r.
                  case r of
                    Inl f \<Rightarrow> Inl f
                  | Inr (words, count', capacity, h) \<Rightarrow>
                      if child \<noteq> None
                      then (case malloc h of
                              (False, h') \<Rightarrow> Inr (words, count', capacity, h')
                            | (True, h') \<Rightarrow>
                                trie_collect_words child
                                  (prefix @ [char_of (of_char CHR ''a'' + i)])
                                  (words, count', capacity, h'))
                      else Inr (words, count', capacity, h))
            (zip [0..<26] cs) (Inr st'))"
  by pat_completeness auto
termination
  apply (relation "measure (\<lambda>(n, p, st). size_option size n)")
   apply simp
  apply (auto simp: less_Suc_eq_le dest!: set_zip_rightD)
  apply (erule size_list_estimation')
  apply simp
  done

text \<open>
  \<open>trie_get_all_words\<close> returns the array through its parameter \<open>words\<close> and the number of
  words through \<open>count\<close>. An array that holds no word is freed and NULL is returned; after
  a failed \<open>realloc\<close> the array is NULL while \<open>count\<close> is not 0.
\<close>

definition trie_get_all_words ::
  "heap \<Rightarrow> Trie option \<Rightarrow> fault + (word_array \<times> nat) \<times> heap" where
  "trie_get_all_words h trie =
     (case trie of
        None \<Rightarrow> Inr ((None, 0), h)
      | Some t \<Rightarrow>
          let count' = 0; capacity = 100 in
          (case malloc h of
             (False, h) \<Rightarrow> Inr ((None, count'), h)
           | (True, h) \<Rightarrow>
               let words = Some (replicate capacity None) in
               (case malloc h of
                  (False, h) \<Rightarrow> Inr ((None, count'), h)
                | (True, h) \<Rightarrow>
                    (case trie_collect_words (Some (root t)) [] (words, count', capacity, h) of
                       Inl f \<Rightarrow> Inl f
                     | Inr (words, count', capacity, h) \<Rightarrow>
                         if count' = 0 then Inr ((None, count'), h)
                         else Inr ((words, count'), h)))))"

section \<open>The distance engine (edit\_distance.c)\<close>

datatype EditOperationType = EDIT_INSERT | EDIT_DELETE | EDIT_SUBSTITUTE | EDIT_MATCH

record EditOperation =
  type :: EditOperationType
  from_char :: char
  to_char :: char
  position :: int

record EditResult =
  distance :: int
  operations :: "EditOperation list"
  operation_count :: int

definition min3 :: "int \<Rightarrow> int \<Rightarrow> int \<Rightarrow> int" where
  "min3 a b c = (let min_ab = (if a < b then a else b) in if min_ab < c then min_ab else c)"

text \<open>
  The body of the inner loop of \<open>compute_edit_distance\<close>, for column \<open>j\<close> of row \<open>i\<close>, and
  the inner loop itself with the assignment to cell 0 that precedes it.
  \<open>get_distance_row\<close> has the same loop, with \<open>target_len\<close> as the bound.
\<close>

definition row_cell :: "string \<Rightarrow> string \<Rightarrow> nat \<Rightarrow> int list \<Rightarrow> nat \<Rightarrow> int list \<Rightarrow> int list" where
  "row_cell word1 word2 i prev_row j curr_row =
     (if c_nth word1 (i - 1) = c_nth word2 (j - 1)
      then curr_row[j := prev_row ! (j - 1)]
      else (let substitute = prev_row ! (j - 1) + 1;
                insert = curr_row ! (j - 1) + 1;
                delete = prev_row ! j + 1
            in curr_row[j := min3 substitute insert delete]))"

definition fill_row :: "string \<Rightarrow> string \<Rightarrow> nat \<Rightarrow> nat \<Rightarrow> int list \<Rightarrow> int list \<Rightarrow> int list" where
  "fill_row word1 word2 len2 i prev_row curr_row =
     fold (row_cell word1 word2 i prev_row) [1..<len2 + 1] (curr_row[0 := int i])"

text \<open>
  The outer loop over the rows. The state is the pair of row pointers
  \<open>(prev_row, curr_row)\<close>, swapped at the end of every iteration.
\<close>

definition row_loop ::
  "string \<Rightarrow> string \<Rightarrow> nat \<Rightarrow> nat \<Rightarrow> int list \<times> int list \<Rightarrow> int list \<times> int list" where
  "row_loop word1 word2 len1 len2 rows =
     fold (\<lambda>i (prev_row, curr_row). (fill_row word1 word2 len2 i prev_row curr_row, prev_row))
       [1..<len1 + 1] rows"

text \<open>The loop \<open>for (j = 0; j <= n; j++) row[j] = j\<close>.\<close>

definition init_row :: "nat \<Rightarrow> int list \<Rightarrow> int list" where
  "init_row n row = fold (\<lambda>j row. row[j := int j]) [0..<n + 1] row"

definition compute_edit_distance :: "heap \<Rightarrow> string option \<Rightarrow> string option \<Rightarrow> int" where
  "compute_edit_distance h word1 word2 =
     (case (word1, word2) of
        (Some w1, Some w2) \<Rightarrow>
          let len1 = length w1; len2 = length w2 in
          if len1 = 0 then int len2
          else if len2 = 0 then int len1
          else
            (case malloc h of (prev_ok, h1) \<Rightarrow>
             case malloc h1 of (curr_ok, h2) \<Rightarrow>
               if \<not> prev_ok \<or> \<not> curr_ok then - 1
               else
                 let prev_row = init_row len2 (fresh_ints (len2 + 1));
                     curr_row = fresh_ints (len2 + 1);
                     (prev_row, curr_row) = row_loop w1 w2 len1 len2 (prev_row, curr_row)
                 in prev_row ! len2)
      | _ \<Rightarrow> - 1)"

text \<open>
  The allocation outcomes left after a call of \<open>compute_edit_distance\<close>: it requests both
  rows before it tests either, unless an argument is NULL or empty.
\<close>

definition after_edit_distance :: "heap \<Rightarrow> string option \<Rightarrow> string option \<Rightarrow> heap" where
  "after_edit_distance h word1 word2 =
     (case (word1, word2) of
        (Some w1, Some w2) \<Rightarrow>
          if length w1 = 0 \<or> length w2 = 0 then h
          else snd (malloc (snd (malloc h)))
      | _ \<Rightarrow> h)"

definition get_distance_row ::
  "heap \<Rightarrow> string option \<Rightarrow> string option \<Rightarrow> int \<Rightarrow> int list option" where
  "get_distance_row h word target target_len =
     (case (word, target) of
        (Some w, Some t) \<Rightarrow>
          if target_len < 0 then None
          else
            let word_len = length w; n = nat target_len in
            (case malloc h of
               (False, h1) \<Rightarrow> None
             | (True, h1) \<Rightarrow>
                 let row = init_row n (fresh_ints (n + 1)) in
                 if word_len = 0 then Some row
                 else
                   (case malloc h1 of
                      (False, h2) \<Rightarrow> None
                    | (True, h2) \<Rightarrow>
                        let prev_row = row;
                            (prev_row, row) = row_loop w t word_len n (prev_row, row)
                        in Some prev_row))
      | _ \<Rightarrow> None)"

text \<open>The rows of the full table, allocated one by one; the first failure stops the loop.\<close>

fun alloc_rows :: "nat \<Rightarrow> nat \<Rightarrow> heap \<Rightarrow> int list list option \<times> heap" where
  "alloc_rows 0 n h = (Some [], h)"
| "alloc_rows (Suc k) n h =
     (case malloc h of
        (False, h') \<Rightarrow> (None, h')
      | (True, h') \<Rightarrow>
          (case alloc_rows k n h' of
             (None, h'') \<Rightarrow> (None, h'')
           | (Some rows, h'') \<Rightarrow> (Some (fresh_ints n # rows), h'')))"

text \<open>The two loops that set column 0 and row 0 of the table.\<close>

definition init_dp :: "nat \<Rightarrow> nat \<Rightarrow> int list list \<Rightarrow> int list list" where
  "init_dp len1 len2 dp =
     fold (\<lambda>j dp. dp[0 := (dp ! 0)[j := int j]]) [0..<len2 + 1]
       (fold (\<lambda>i dp. dp[i := (dp ! i)[0 := int i]]) [0..<len1 + 1] dp)"

definition dp_cell :: "string \<Rightarrow> string \<Rightarrow> nat \<Rightarrow> nat \<Rightarrow> int list list \<Rightarrow> int list list" where
  "dp_cell word1 word2 i j dp =
     (if c_nth word1 (i - 1) = c_nth word2 (j - 1)
      then dp[i := (dp ! i)[j := dp ! (i - 1) ! (j - 1)]]
      else (let substitute = dp ! (i - 1) ! (j - 1) + 1;
                insert = dp ! i ! (j - 1) + 1;
                delete = dp ! (i - 1) ! j + 1
            in dp[i := (dp ! i)[j := min3 substitute insert delete]]))"

definition fill_dp :: "string \<Rightarrow> string \<Rightarrow> nat \<Rightarrow> nat \<Rightarrow> int list list \<Rightarrow> int list list" where
  "fill_dp word1 word2 len1 len2 dp =
     fold (\<lambda>i dp. fold (dp_cell word1 word2 i) [1..<len2 + 1] dp) [1..<len1 + 1] dp"

text \<open>The unspecified content of a cell of the fresh \<open>operations\<close> array.\<close>

definition fresh_op :: EditOperation where
  "fresh_op = \<lparr>type = EDIT_INSERT, from_char = CHR 0x00, to_char = CHR 0x00, position = 0\<rparr>"

text \<open>
  The backtracking loop. Its \<open>if\<close> chain has no final \<open>else\<close>: in a state where no
  branch applies the body changes nothing and the loop runs forever, which is the value
  \<open>None\<close> here.
\<close>

partial_function (option) backtrack ::
  "string \<Rightarrow> string \<Rightarrow> int list list \<Rightarrow> nat \<Rightarrow> nat \<Rightarrow> nat \<Rightarrow> EditOperation list \<Rightarrow>
   (nat \<times> EditOperation list) option" where
  "backtrack word1 word2 dp i j op_count ops =
     (if i > 0 \<or> j > 0 then
        (if i > 0 \<and> j > 0 \<and> c_nth word1 (i - 1) = c_nth word2 (j - 1) then
           backtrack word1 word2 dp (i - 1) (j - 1) (op_count + 1)
             (ops[op_count := \<lparr>type = EDIT_MATCH, from_char = c_nth word1 (i - 1),
                               to_char = c_nth word2 (j - 1), position = int i - 1\<rparr>])
         else if i > 0 \<and> j > 0 \<and> dp ! i ! j = dp ! (i - 1) ! (j - 1) + 1 then
           backtrack word1 word2 dp (i - 1) (j - 1) (op_count + 1)
             (ops[op_count := \<lparr>type = EDIT_SUBSTITUTE, from_char = c_nth word1 (i - 1),
                               to_char = c_nth word2 (j - 1), position = int i - 1\<rparr>])
         else if j > 0 \<and> dp ! i ! j = dp ! i ! (j - 1) + 1 then
           backtrack word1 word2 dp i (j - 1) (op_count + 1)
             (ops[op_count := \<lparr>type = EDIT_INSERT, from_char = CHR 0x00,
                               to_char = c_nth word2 (j - 1), position = int i\<rparr>])
         else if i > 0 \<and> dp ! i ! j = dp ! (i - 1) ! j + 1 then
           backtrack word1 word2 dp (i - 1) j (op_count + 1)
             (ops[op_count := \<lparr>type = EDIT_DELETE, from_char = c_nth word1 (i - 1),
                               to_char = CHR 0x00, position = int i - 1\<rparr>])
         else backtrack word1 word2 dp i j op_count ops)
      else Some (op_count, ops))"

declare backtrack.simps [code]

text \<open>The loop that reverses the first \<open>op_count\<close> cells in place.\<close>

definition reverse_operations :: "nat \<Rightarrow> EditOperation list \<Rightarrow> EditOperation list" where
  "reverse_operations op_count ops =
     fold (\<lambda>k ops. let temp = ops ! k
                    in (ops[k := ops ! (op_count - 1 - k)])[op_count - 1 - k := temp])
       [0..<op_count div 2] ops"

text \<open>
  The result is \<open>None\<close> when the call does not return, \<open>Some None\<close> when it returns NULL
  and \<open>Some (Some r)\<close> when it returns the struct \<open>r\<close>.
\<close>

definition compute_edit_operations ::
  "heap \<Rightarrow> string option \<Rightarrow> string option \<Rightarrow> EditResult option option" where
  "compute_edit_operations h word1 word2 =
     (case (word1, word2) of
        (Some w1, Some w2) \<Rightarrow>
          let len1 = length w1; len2 = length w2 in
          (case malloc h of
             (False, h1) \<Rightarrow> Some None
           | (True, h1) \<Rightarrow>
          (case malloc h1 of
             (False, h2) \<Rightarrow> Some None
           | (True, h2) \<Rightarrow>
          (case alloc_rows (len1 + 1) (len2 + 1) h2 of
             (None, h3) \<Rightarrow> Some None
           | (Some dp0, h3) \<Rightarrow>
               let dp = fill_dp w1 w2 len1 len2 (init_dp len1 len2 dp0);
                   max_ops = len1 + len2
               in
               (case malloc h3 of
                  (False, h4) \<Rightarrow> Some None
                | (True, h4) \<Rightarrow>
                    (case backtrack w1 w2 dp len1 len2 0 (replicate max_ops fresh_op) of
                       None \<Rightarrow> None
                     | Some (op_count, ops) \<Rightarrow>
                         Some (Some \<lparr>distance = dp ! len1 ! len2,
                                     operations = reverse_operations op_count ops,
                                     operation_count = int op_count\<rparr>))))))
      | _ \<Rightarrow> Some None)"

section \<open>The external oracle (api\_client.c)\<close>

text \<open>
  The structs of \<open>api_client.h\<close>, without the \<open>double\<close> field \<open>avg_response_time\<close>, and
  the file-level variables of \<open>api_client.c\<close>.
\<close>

record APIResponse =
  word_found :: bool
  definition_text :: "string option"
  response_time_ms :: int
  http_status :: int
  error_message :: "string option"

record APIStats =
  total_requests :: int
  successful_requests :: int
  failed_requests :: int
  words_found :: int
  words_not_found :: int
  total_response_time :: int

record APIClient =
  g_api_key :: "string option"
  g_initialized :: bool
  g_stats :: APIStats

text \<open>
  The HTTP round trip and the JSON parsing are the environment: \<open>service\<close> gives the
  response that \<open>make_api_request\<close> builds for a word.
\<close>

definition is_api_initialized :: "APIClient \<Rightarrow> bool" where
  "is_api_initialized api = g_initialized api"

definition make_api_request ::
  "(string \<Rightarrow> APIResponse) \<Rightarrow> APIClient \<Rightarrow> string \<Rightarrow> APIResponse option" where
  "make_api_request service api w =
     (if \<not> g_initialized api \<or> g_api_key api = None then None else Some (service w))"

definition fetch_from_api ::
  "(string \<Rightarrow> APIResponse) \<Rightarrow> APIClient \<Rightarrow> string option \<Rightarrow> int \<times> APIClient" where
  "fetch_from_api service api word =
     (case word of
        None \<Rightarrow> (- 1, api)
      | Some w \<Rightarrow>
          if length w = 0 then (- 1, api)
          else
            let st = g_stats api;
                st = st\<lparr>total_requests := total_requests st + 1\<rparr>
            in
            (case make_api_request service api w of
               None \<Rightarrow> (- 1, api\<lparr>g_stats := st\<lparr>failed_requests := failed_requests st + 1\<rparr>\<rparr>)
             | Some response \<Rightarrow>
                 let st = st\<lparr>total_response_time :=
                             total_response_time st + response_time_ms response\<rparr>
                 in
                 if error_message response \<noteq> None
                 then (- 1, api\<lparr>g_stats := st\<lparr>failed_requests := failed_requests st + 1\<rparr>\<rparr>)
                 else
                   let st = st\<lparr>successful_requests := successful_requests st + 1\<rparr> in
                   if word_found response
                   then (1, api\<lparr>g_stats := st\<lparr>words_found := words_found st + 1\<rparr>\<rparr>)
                   else (0, api\<lparr>g_stats := st\<lparr>words_not_found := words_not_found st + 1\<rparr>\<rparr>)))"

section \<open>The suggestion ranker and the orchestrator (spell\_check.c)\<close>

text \<open>\<open>safe_strdup\<close>: NULL for NULL, and NULL when the copy cannot be allocated.\<close>

definition safe_strdup :: "heap \<Rightarrow> string option \<Rightarrow> string option \<times> heap" where
  "safe_strdup h str =
     (case str of
        None \<Rightarrow> (None, h)
      | Some s \<Rightarrow> (case malloc h of (ok, h') \<Rightarrow> (if ok then Some s else None, h')))"

text \<open>
  The struct \<open>WordDistance\<close> local to \<open>generate_suggestions\<close>: a pointer to a word, which
  may be NULL, and a distance.
\<close>

type_synonym WordDistance = "string option \<times> int"

text \<open>
  The body of the loop that keeps the words at distance 1 or 2, for the cell \<open>i\<close> of
  \<open>all_words\<close>, and the loop, which runs in the order of the enumeration. The result of
  \<open>safe_strdup\<close> is stored as it is. The loop reads the cells below \<open>total_words\<close>, and
  the enumeration never returns a count above the number of cells of its array.
\<close>

definition candidate_step ::
  "string \<Rightarrow> string option list \<Rightarrow> nat \<Rightarrow> WordDistance list \<times> heap \<Rightarrow> WordDistance list \<times> heap" where
  "candidate_step misspelled_word all_words i st =
     (case st of (candidates, h) \<Rightarrow>
        let distance = compute_edit_distance h (Some misspelled_word) (all_words ! i);
            h = after_edit_distance h (Some misspelled_word) (all_words ! i)
        in if distance \<le> 2 \<and> distance > 0
           then (case safe_strdup h (all_words ! i) of
                   (copy, h) \<Rightarrow> (candidates @ [(copy, distance)], h))
           else (candidates, h))"

definition collect_candidates ::
  "string \<Rightarrow> string option list \<Rightarrow> nat \<Rightarrow> heap \<Rightarrow> WordDistance list \<times> heap" where
  "collect_candidates misspelled_word all_words total_words' h =
     fold (candidate_step misspelled_word all_words) [0..<total_words'] ([], h)"

text \<open>The inner loop of the bubble sort, with its bound \<open>candidate_count - i - 1\<close>.\<close>

definition bubble_pass :: "nat \<Rightarrow> WordDistance list \<Rightarrow> WordDistance list" where
  "bubble_pass bound candidates =
     fold (\<lambda>j c. if snd (c ! j) > snd (c ! (j + 1))
                  then (let temp = c ! j in (c[j := c ! (j + 1)])[j + 1 := temp])
                  else c)
       [0..<bound] candidates"

definition bubble_sort :: "WordDistance list \<Rightarrow> WordDistance list" where
  "bubble_sort candidates =
     (let candidate_count = length candidates
      in fold (\<lambda>i c. bubble_pass (candidate_count - i - 1) c) [0..<candidate_count - 1] candidates)"

text \<open>
  \<open>generate_suggestions\<close> returns the array of suggestions, with its length in \<open>count\<close>;
  \<open>None\<close> is the NULL array, with count 0. A cell of the array can hold NULL.
\<close>

definition generate_suggestions ::
  "heap \<Rightarrow> string option \<Rightarrow> Trie option \<Rightarrow> fault + string option list option" where
  "generate_suggestions h misspelled_word dictionary =
     (case (misspelled_word, dictionary) of
        (Some mw, Some d) \<Rightarrow>
          (case trie_get_all_words h dictionary of
             Inl f \<Rightarrow> Inl f
           | Inr ((None, total_words'), h) \<Rightarrow> Inr None
           | Inr ((Some all_words, total_words'), h) \<Rightarrow>
               if total_words' = 0 then Inr None
               else
                 (case malloc h of
                    (False, h) \<Rightarrow> Inr None
                  | (True, h) \<Rightarrow>
                      (case collect_candidates mw all_words total_words' h of
                         (candidates, h) \<Rightarrow>
                           let candidate_count = length candidates in
                           if candidate_count = 0 then Inr None
                           else
                             let candidates = bubble_sort candidates;
                                 max_suggestions =
                                   (if candidate_count < 5 then candidate_count else 5)
                             in (case malloc h of
                                   (False, h) \<Rightarrow> Inr None
                                 | (True, h) \<Rightarrow>
                                     Inr (Some (map fst (take max_suggestions candidates)))))))
      | _ \<Rightarrow> Inr None)"

definition is_alpha_char :: "char \<Rightarrow> bool" where
  "is_alpha_char c =
     ((c \<ge> CHR ''a'' \<and> c \<le> CHR ''z'') \<or> (c \<ge> CHR ''A'' \<and> c \<le> CHR ''Z''))"

definition is_alphabetic_word :: "string option \<Rightarrow> bool" where
  "is_alphabetic_word word =
     (case word of
        None \<Rightarrow> False
      | Some w \<Rightarrow> if length w = 0 then False else list_all is_alpha_char w)"

text \<open>
  The structs of \<open>file_io.h\<close> and \<open>spell_check.h\<close>. Structs share field names; where a
  name is ambiguous it is written with the struct's name in front. The \<open>double\<close> field
  \<open>processing_time\<close>, never assigned anything but 0.0, is left out, and
  \<open>suggestion_scores\<close> holds the loop index \<open>j\<close> converted to \<open>float\<close>, modelled by the
  integer itself.
\<close>

record TextToken =
  word :: "string option"
  original_word :: "string option"
  line_number :: int
  position :: int

record TextDocument =
  tokens :: "TextToken list"
  token_count :: int
  total_words :: int
  filename :: "string option"

record SpellError =
  misspelled_word :: "string option"
  original_word :: "string option"
  line_number :: int
  position :: int
  suggestions :: "string option list option"
  suggestion_scores :: "int list option"
  suggestion_count :: int

record SpellCheckResult =
  errors :: "SpellError list"
  error_count :: int
  total_words_checked :: int
  memory_used :: nat

definition is_likely_proper_noun :: "string option \<Rightarrow> TextToken option \<Rightarrow> bool" where
  "is_likely_proper_noun word' token =
     (case (word', token) of
        (Some w, Some tok) \<Rightarrow>
          (case TextToken.original_word tok of
             None \<Rightarrow> False
           | Some ow \<Rightarrow>
               if isupper (c_nth ow 0)
               then (if TextToken.position tok = 0 then False else True)
               else False)
      | _ \<Rightarrow> False)"

text \<open>
  The body of the loop of \<open>spell_check_document\<close>, for one token. The orchestrator is
  modelled on a run in which every allocation succeeds, the calls of \<open>generate_suggestions\<close>
  included; on such a run the enumeration does not fault. At a failed allocation the C
  code returns NULL or stops appending errors.
\<close>

definition check_token :: "Trie option \<Rightarrow> TextToken \<Rightarrow> SpellCheckResult \<Rightarrow> SpellCheckResult" where
  "check_token dictionary token result =
     (if \<not> is_valid_word (word token) \<or> \<not> is_alphabetic_word (word token) then result
      else
        let result = result\<lparr>total_words_checked := total_words_checked result + 1\<rparr> in
        if \<not> trie_search dictionary (word token) then
          if is_likely_proper_noun (word token) (Some token) then result
          else
            let found = (case generate_suggestions [] (word token) dictionary of
                           Inl f \<Rightarrow> None
                         | Inr s \<Rightarrow> s);
                n = (case found of None \<Rightarrow> 0 | Some s \<Rightarrow> length s);
                error = \<lparr>misspelled_word = word token,
                         SpellError.original_word = TextToken.original_word token,
                         SpellError.line_number = TextToken.line_number token,
                         SpellError.position = TextToken.position token,
                         suggestions = found,
                         suggestion_scores = (if n > 0 then Some (map int [0..<n]) else None),
                         suggestion_count = int n\<rparr>
            in result\<lparr>errors := errors result @ [error],
                       error_count := error_count result + 1\<rparr>
        else result)"

text \<open>
  \<open>spell_check_document\<close> takes the file-level state of the API client along, as the rest
  of the program can see it before and after the call. No statement of the function
  reads or writes that state.
\<close>

definition spell_check_document ::
  "APIClient \<Rightarrow> TextDocument option \<Rightarrow> Trie option \<Rightarrow> SpellCheckResult option \<times> APIClient" where
  "spell_check_document api doc dictionary =
     (case (doc, dictionary) of
        (Some d, Some t) \<Rightarrow>
          (Some (fold (check_token dictionary) (take (nat (token_count d)) (tokens d))
                   \<lparr>errors = [], error_count = 0, total_words_checked = 0, memory_used = 0\<rparr>),
           api)
      | _ \<Rightarrow> (None, api))"

section \<open>Notions used to state the properties\<close>

text \<open>A run of \<open>trie_insert\<close> calls, each with its own allocation outcomes, and the words
  whose insertion returned true.\<close>

fun insert_all :: "(heap \<times> string option) list \<Rightarrow> Trie option \<Rightarrow> Trie option" where
  "insert_all [] trie = trie"
| "insert_all ((h, w) # calls) trie = insert_all calls (snd (trie_insert h trie w))"

fun accepted_words :: "(heap \<times> string option) list \<Rightarrow> Trie option \<Rightarrow> string list" where
  "accepted_words [] trie = []"
| "accepted_words ((h, w) # calls) trie =
     (case trie_insert h trie w of
        (ok, trie') \<Rightarrow>
          (case w of Some s \<Rightarrow> if ok then [s] else [] | None \<Rightarrow> []) @
          accepted_words calls trie')"

text \<open>Every node has its 26 cells.\<close>

fun wf_node :: "TrieNode \<Rightarrow> bool" where
  "wf_node (TrieNode cs e wc) =
     (length cs = 26 \<and> (\<forall>c \<in> set cs. case c of None \<Rightarrow> True | Some m \<Rightarrow> wf_node m))"

text \<open>The number of nodes whose end-of-word flag is set.\<close>

fun count_end :: "TrieNode \<Rightarrow> nat" where
  "count_end (TrieNode cs e wc) =
     (if e then 1 else 0) + sum_list (map (\<lambda>c. case c of None \<Rightarrow> 0 | Some m \<Rightarrow> count_end m) cs)"

definition fresh_node :: TrieNode where
  "fresh_node = TrieNode (replicate 26 None) False 0"

definition trie_inv :: "Trie \<Rightarrow> bool" where
  "trie_inv t \<longleftrightarrow>
     wf_node (root t) \<and>
     Trie.total_words t = int (count_end (root t)) \<and>
     memory_usage t = trie_get_memory_usage (Some t)"

text \<open>
  What it means to apply an edit script to a source string, after the field comments of
  \<open>EditOperation\<close>: a cursor runs over the source, and every operation must name the
  cursor's index as its position. A match keeps the source character under the cursor, a
  substitution replaces it by \<open>to_char\<close>, a deletion drops it, and each of these needs
  \<open>from_char\<close> to be that source character; an insertion emits \<open>to_char\<close> and leaves the
  cursor. The script applies to the source when it ends with the cursor at the end.
\<close>

definition apply_operation ::
  "string \<Rightarrow> EditOperation \<Rightarrow> (nat \<times> string) option \<Rightarrow> (nat \<times> string) option" where
  "apply_operation source op st =
     (case st of
        None \<Rightarrow> None
      | Some (pos, out) \<Rightarrow>
          if EditOperation.position op \<noteq> int pos then None
          else
            (case type op of
               EDIT_MATCH \<Rightarrow>
                 if pos < length source \<and> from_char op = source ! pos \<and> to_char op = source ! pos
                 then Some (pos + 1, out @ [source ! pos]) else None
             | EDIT_SUBSTITUTE \<Rightarrow>
                 if pos < length source \<and> from_char op = source ! pos
                 then Some (pos + 1, out @ [to_char op]) else None
             | EDIT_INSERT \<Rightarrow> Some (pos, out @ [to_char op])
             | EDIT_DELETE \<Rightarrow>
                 if pos < length source \<and> from_char op = source ! pos
                 then Some (pos + 1, out) else None))"

definition apply_operations :: "EditOperation list \<Rightarrow> string \<Rightarrow> string option" where
  "apply_operations ops source =
     (case fold (apply_operation source) ops (Some (0, [])) of
        None \<Rightarrow> None
      | Some (pos, out) \<Rightarrow> if pos = length source then Some out else None)"

text \<open>The operation sequence of a result: the first \<open>operation_count\<close> cells of the array.\<close>

definition op_sequence :: "EditResult \<Rightarrow> EditOperation list" where
  "op_sequence r = take (nat (operation_count r)) (operations r)"

definition edit_cost :: "EditOperation list \<Rightarrow> nat" where
  "edit_cost ops = length (filter (\<lambda>op. type op \<noteq> EDIT_MATCH) ops)"

text \<open>
  The value that the recurrence of the distance table gives to cell \<open>(i, j)\<close>; the proofs
  show that the loops store this value in every cell they fill.
\<close>

fun lev :: "string \<Rightarrow> string \<Rightarrow> nat \<Rightarrow> nat \<Rightarrow> int" where
  "lev a b 0 j = int j"
| "lev a b (Suc i) 0 = int (Suc i)"
| "lev a b (Suc i) (Suc j) =
     (if c_nth a i = c_nth b j then lev a b i j
      else min3 (lev a b i j + 1) (lev a b (Suc i) j + 1) (lev a b i (Suc j) + 1))"

definition dims :: "int list list \<Rightarrow> nat \<Rightarrow> nat \<Rightarrow> bool" where
  "dims dp r c \<longleftrightarrow> length dp = r \<and> (\<forall>i < r. length (dp ! i) = c)"

definition filled :: "string \<Rightarrow> string \<Rightarrow> nat \<Rightarrow> nat \<Rightarrow> nat \<Rightarrow> int list list \<Rightarrow> bool" where
  "filled a b len1 len2 k dp \<longleftrightarrow>
     dims dp (len1 + 1) (len2 + 1) \<and>
     (\<forall>i \<le> k. \<forall>j \<le> len2. dp ! i ! j = lev a b i j) \<and>
     (\<forall>i \<le> len1. dp ! i ! 0 = int i)"

text \<open>One iteration of the inner loop of the bubble sort.\<close>

definition bubble_step :: "nat \<Rightarrow> WordDistance list \<Rightarrow> WordDistance list" where
  "bubble_step j c = (if snd (c ! j) > snd (c ! (j + 1))
                  then (let temp = c ! j in (c[j := c ! (j + 1)])[j + 1 := temp])
                  else c)"

text \<open>
  The suggestion list that a call returns, cell by cell: empty when the array is NULL.
  \<open>suggested_words\<close> are the strings that its cells point to, in order.
\<close>

definition suggestion_list :: "string option list option \<Rightarrow> string option list" where
  "suggestion_list r = (case r of None \<Rightarrow> [] | Some s \<Rightarrow> s)"

definition suggested_words :: "string option list \<Rightarrow> string list" where
  "suggested_words s = map the (filter (\<lambda>e. e \<noteq> None) s)"

text \<open>The distance that \<open>generate_suggestions\<close> computes between the query and a word.\<close>

definition query_distance :: "string \<Rightarrow> string \<Rightarrow> int" where
  "query_distance q w = compute_edit_distance [] (Some q) (Some w)"

text \<open>The words stored below a node: the paths of lowercase letters that end in a
  flagged node.\<close>

definition stored_words :: "TrieNode \<Rightarrow> string set" where
  "stored_words n = {w. (\<forall>c \<in> set w. islower c) \<and> search_loop w n}"

text \<open>The character that the enumeration appends for cell \<open>i\<close>: \<open>'a' + i\<close>.\<close>

definition letter :: "nat \<Rightarrow> char" where
  "letter i = char_of (of_char CHR ''a'' + i)"

definition stored_opt :: "TrieNode option \<Rightarrow> string set" where
  "stored_opt x = (case x of None \<Rightarrow> {} | Some n \<Rightarrow> stored_words n)"

text \<open>
  What the traversal keeps true of its state for a set \<open>A\<close> of words: \<open>count\<close> does not
  exceed \<open>capacity\<close>, and an array that is not NULL has \<open>capacity\<close> cells, each of them NULL or
  a word of \<open>A\<close>. \<open>collect_ready\<close> adds that nothing can fail any more: the array is there,
  it has room to grow, and every request still to come succeeds.
\<close>

definition collect_inv :: "string set \<Rightarrow> collect_state \<Rightarrow> bool" where
  "collect_inv A st \<longleftrightarrow>
     (case st of (words, count', capacity, h) \<Rightarrow>
        count' \<le> capacity \<and>
        (\<forall>ws. words = Some ws \<longrightarrow> length ws = capacity \<and> (\<forall>w. Some w \<in> set ws \<longrightarrow> w \<in> A)))"

definition collect_ready :: "collect_state \<Rightarrow> bool" where
  "collect_ready st \<longleftrightarrow>
     (case st of (words, count', capacity, h) \<Rightarrow>
        words \<noteq> None \<and> 0 < capacity \<and> no_failure h \<and>
        (\<forall>ws. words = Some ws \<longrightarrow> (\<forall>i < count'. i < length ws \<and> ws ! i \<noteq> None)))"

text \<open>The test of the candidate loop: distance 1 or 2.\<close>

definition in_band :: "string \<Rightarrow> string \<Rightarrow> bool" where
  "in_band q w \<longleftrightarrow> query_distance q w \<le> 2 \<and> query_distance q w > 0"

text \<open>
  An input for the ranker: the dictionary holds only "cat", and of the allocation
  requests of a call with the query "bat" the tenth fails. The first nine are the output
  array of the enumeration, the empty prefix, the prefixes "c", "ca" and "cat", the copy
  of "cat", the candidate array and the two rows of the distance; the tenth is the copy
  made by \<open>safe_strdup\<close>.
\<close>

definition cat_dictionary :: "Trie option" where
  "cat_dictionary = snd (trie_insert [] (trie_create []) (Some ''cat''))"

definition strdup_fails :: heap where
  "strdup_fails = [True, True, True, True, True, True, True, True, True, False]"

text \<open>
  An input for the orchestrator with the oracle configured: the API client is initialised,
  the service knows the word "world", the local dictionary holds only "hello", and the
  document is the single token "world" at line 1, column 0.
\<close>

definition service_knows_world :: "string \<Rightarrow> APIResponse" where
  "service_knows_world w =
     \<lparr>word_found = (w = ''world''), definition_text = None, response_time_ms = 0,
      http_status = 200, error_message = None\<rparr>"

definition configured_api :: APIClient where
  "configured_api =
     \<lparr>g_api_key = Some ''key'', g_initialized = True,
      g_stats = \<lparr>total_requests = 0, successful_requests = 0, failed_requests = 0,
                 words_found = 0, words_not_found = 0, total_response_time = 0\<rparr>\<rparr>"

definition hello_dictionary :: "Trie option" where
  "hello_dictionary = snd (trie_insert [] (trie_create []) (Some ''hello''))"

definition world_document :: TextDocument where
  "world_document =
     \<lparr>tokens = [\<lparr>word = Some ''world'', TextToken.original_word = Some ''world'',
                  TextToken.line_number = 1, TextToken.position = 0\<rparr>],
      token_count = 1, total_words = 1, filename = Some ''input.txt''\<rparr>"

section \<open>Verification\<close>

lemma normalize_loop_eq:
  "normalize_loop w acc = acc @ map tolower (filter isalpha w)"
  by (induction w arbitrary: acc) simp_all

lemma tolower_add: "isupper c \<Longrightarrow> (of_char (tolower c) :: nat) = of_char c + 32"
proof (cases c)
  case (Char b0 b1 b2 b3 b4 b5 b6 b7)
  assume u: "isupper c"
  have "\<not> b5"
    using u unfolding Char
    by (cases b5; cases b6; cases b7; simp add: isupper_def less_eq_char_def;
        cases b0; cases b1; cases b2; cases b3; cases b4; simp)
  then show ?thesis using u unfolding Char
    by (simp add: tolower_def)
qed

lemma islower_not_isupper: "islower c \<Longrightarrow> \<not> isupper c"
  by (simp add: isupper_def islower_def less_eq_char_def)

lemma tolower_islower_iff: "islower (tolower c) \<longleftrightarrow> isalpha c"
proof (cases "isupper c")
  case True
  then show ?thesis using tolower_add[of c]
    by (simp add: isupper_def islower_def isalpha_def less_eq_char_def)
next
  case False
  then show ?thesis by (simp add: tolower_def isalpha_def)
qed

lemma tolower_idem: "tolower (tolower c) = tolower c"
proof (cases "isupper c")
  case True
  then have "islower (tolower c)" by (simp add: tolower_islower_iff isalpha_def)
  then have "\<not> isupper (tolower c)" by (rule islower_not_isupper)
  then show ?thesis by (simp add: tolower_def)
next
  case False
  then show ?thesis by (simp add: tolower_def)
qed

lemma reject_iff: "(c < CHR ''a'' \<or> c > CHR ''z'') \<longleftrightarrow> \<not> islower c"
  by (auto simp: islower_def)

lemma index_bound: "islower c \<Longrightarrow> letter_index c < 26"
  by (auto simp add: islower_def less_eq_char_def letter_index_def)

lemma index_inj:
  assumes "islower c" "islower d" "letter_index c = letter_index d"
  shows "c = d"
proof -
  from assms(1,2) have "(97::nat) \<le> of_char c" "(97::nat) \<le> of_char d"
    by (simp_all add: islower_def less_eq_char_def)
  moreover from assms(3) have "(of_char c :: nat) - 97 = of_char d - 97"
    by (simp add: letter_index_def)
  ultimately have "(of_char c :: nat) = of_char d"
    by linarith
  then show "c = d" by simp
qed

lemma wf_node_children: "wf_node n \<Longrightarrow> length (children n) = 26"
  by (cases n) simp

lemma wf_node_child:
  "wf_node n \<Longrightarrow> i < 26 \<Longrightarrow> children n ! i = Some m \<Longrightarrow> wf_node m"
  by (cases n) (auto simp: all_set_conv_all_nth split: option.splits)

lemma wf_node_update:
  "wf_node n \<Longrightarrow> wf_node m \<Longrightarrow> wf_node (TrieNode ((children n)[i := Some m]) e wc)"
  by (cases n) (auto dest!: set_update_subset_insert[THEN subsetD])

lemma wf_node_fresh: "wf_node fresh_node"
  by (simp add: fresh_node_def)

lemma wf_node_flags: "wf_node n \<Longrightarrow> wf_node (TrieNode (children n) e wc)"
  by (cases n) simp

lemma insert_loop_Nil:
  "insert_loop [] n mem tw h =
     (True, TrieNode (children n) True (word_count n + 1), mem,
      if is_end_of_word n then tw else tw + 1)"
  by simp

lemma insert_loop_Cons:
  "insert_loop (ch # rest) n mem tw h =
     (if \<not> islower (tolower ch) then (False, n, mem, tw)
      else case children n ! letter_index (tolower ch) of
             None \<Rightarrow>
               if \<not> fst (malloc h) then (False, n, mem, tw)
               else (case insert_loop rest fresh_node (mem + sizeof_TrieNode) tw (snd (malloc h)) of
                       (ok, c', r) \<Rightarrow>
                         (ok, TrieNode ((children n)[letter_index (tolower ch) := Some c'])
                                (is_end_of_word n) (word_count n), r))
           | Some child \<Rightarrow>
               (case insert_loop rest child mem tw h of
                  (ok, c', r) \<Rightarrow>
                    (ok, TrieNode ((children n)[letter_index (tolower ch) := Some c'])
                           (is_end_of_word n) (word_count n), r)))"
  by (auto simp: Let_def islower_def trie_node_create_def fresh_node_def
           split: option.splits prod.splits bool.splits)

lemma insert_loop_induct [consumes 2, case_names End Reject NoMem Fresh Descend]:
  assumes wf: "wf_node n"
    and run: "insert_loop w n mem tw h = (ok, n', mem', tw')"
    and End: "\<And>n mem tw h. wf_node n \<Longrightarrow>
        P [] n mem tw h True (TrieNode (children n) True (word_count n + 1)) mem
          (if is_end_of_word n then tw else tw + 1)"
    and Reject: "\<And>ch rest n mem tw h. wf_node n \<Longrightarrow> \<not> islower (tolower ch) \<Longrightarrow>
        P (ch # rest) n mem tw h False n mem tw"
    and NoMem: "\<And>ch rest n mem tw h. wf_node n \<Longrightarrow> islower (tolower ch) \<Longrightarrow>
        children n ! letter_index (tolower ch) = None \<Longrightarrow> \<not> fst (malloc h) \<Longrightarrow>
        P (ch # rest) n mem tw h False n mem tw"
    and Fresh: "\<And>ch rest n mem tw h ok c' mem' tw'. wf_node n \<Longrightarrow> islower (tolower ch) \<Longrightarrow>
        children n ! letter_index (tolower ch) = None \<Longrightarrow> fst (malloc h) \<Longrightarrow>
        insert_loop rest fresh_node (mem + sizeof_TrieNode) tw (snd (malloc h)) = (ok, c', mem', tw') \<Longrightarrow>
        wf_node c' \<Longrightarrow>
        P rest fresh_node (mem + sizeof_TrieNode) tw (snd (malloc h)) ok c' mem' tw' \<Longrightarrow>
        P (ch # rest) n mem tw h ok
          (TrieNode ((children n)[letter_index (tolower ch) := Some c'])
             (is_end_of_word n) (word_count n)) mem' tw'"
    and Descend: "\<And>ch rest n mem tw h child ok c' mem' tw'. wf_node n \<Longrightarrow> islower (tolower ch) \<Longrightarrow>
        children n ! letter_index (tolower ch) = Some child \<Longrightarrow> wf_node child \<Longrightarrow>
        insert_loop rest child mem tw h = (ok, c', mem', tw') \<Longrightarrow>
        wf_node c' \<Longrightarrow>
        P rest child mem tw h ok c' mem' tw' \<Longrightarrow>
        P (ch # rest) n mem tw h ok
          (TrieNode ((children n)[letter_index (tolower ch) := Some c'])
             (is_end_of_word n) (word_count n)) mem' tw'"
  shows "wf_node n' \<and> P w n mem tw h ok n' mem' tw'"
  using wf run
proof (induction w arbitrary: n mem tw h ok n' mem' tw')
  case Nil
  from Nil.prems(2) have res: "ok = True" "n' = TrieNode (children n) True (word_count n + 1)"
    "mem' = mem" "tw' = (if is_end_of_word n then tw else tw + 1)"
    by (auto split: if_splits)
  show ?case unfolding res
    using End[OF Nil.prems(1)] wf_node_flags[OF Nil.prems(1)] by blast
next
  case (Cons ch rest)
  note run = Cons.prems(2)[unfolded insert_loop_Cons]
  show ?case
  proof (cases "islower (tolower ch)")
    case False
    with run Cons.prems(1) Reject[OF Cons.prems(1) False] show ?thesis by simp
  next
    case low: True
    show ?thesis
    proof (cases "children n ! letter_index (tolower ch)")
      case None
      show ?thesis
      proof (cases "fst (malloc h)")
        case False
        with run low None Cons.prems(1) NoMem[OF Cons.prems(1) low None False]
        show ?thesis by simp
      next
        case mt: True
        obtain ok1 c1 m1 t1 where r1:
          "insert_loop rest fresh_node (mem + sizeof_TrieNode) tw (snd (malloc h)) = (ok1, c1, m1, t1)"
          using prod_cases4 by blast
        from Cons.IH[OF wf_node_fresh r1]
        have ih: "wf_node c1" "P rest fresh_node (mem + sizeof_TrieNode) tw (snd (malloc h)) ok1 c1 m1 t1"
          by simp_all
        from run low None mt r1
        have res: "ok = ok1" "mem' = m1" "tw' = t1"
          "n' = TrieNode ((children n)[letter_index (tolower ch) := Some c1])
                  (is_end_of_word n) (word_count n)"
          by simp_all
        show ?thesis unfolding res
          using Fresh[OF Cons.prems(1) low None mt r1 ih] wf_node_update[OF Cons.prems(1) ih(1)]
          by simp
      qed
    next
      case (Some child)
      obtain ok1 c1 m1 t1 where r1: "insert_loop rest child mem tw h = (ok1, c1, m1, t1)"
        using prod_cases4 by blast
      from wf_node_child[OF Cons.prems(1) index_bound[OF low] Some] have wc: "wf_node child" .
      from Cons.IH[OF wc r1]
      have ih: "wf_node c1" "P rest child mem tw h ok1 c1 m1 t1" by simp_all
      from run low Some r1
      have res: "ok = ok1" "mem' = m1" "tw' = t1"
        "n' = TrieNode ((children n)[letter_index (tolower ch) := Some c1])
                (is_end_of_word n) (word_count n)"
        by simp_all
      show ?thesis unfolding res
        using Descend[OF Cons.prems(1) low Some wc r1 ih] wf_node_update[OF Cons.prems(1) ih(1)]
        by simp
    qed
  qed
qed


lemma search_loop_Cons:
  "search_loop (x # xs) n =
     (islower (tolower x) \<and>
      (case children n ! letter_index (tolower x) of
         None \<Rightarrow> False
       | Some child \<Rightarrow> search_loop xs child))"
  by (auto simp: Let_def islower_def)

lemma search_loop_fresh: "\<not> search_loop v fresh_node"
  using index_bound[of "tolower (hd v)"]
  by (cases v) (auto simp add: search_loop_Cons fresh_node_def simp del: search_loop.simps(2))

lemma search_loop_update:
  assumes "wf_node n" "islower (tolower ch)"
  shows "search_loop v (TrieNode ((children n)[letter_index (tolower ch) := Some c']) (is_end_of_word n) wc) =
         (case v of
            [] \<Rightarrow> is_end_of_word n
          | x # xs \<Rightarrow> if tolower x = tolower ch then search_loop xs c' else search_loop v n)"
proof (cases v)
  case Nil
  then show ?thesis by simp
next
  case (Cons x xs)
  from assms have len: "letter_index (tolower ch) < length (children n)"
    by (simp add: wf_node_children index_bound)
  show ?thesis
  proof (cases "tolower x = tolower ch")
    case True
    with len assms(2) Cons show ?thesis
      by (simp add: search_loop_Cons del: search_loop.simps(2))
  next
    case False
    show ?thesis
    proof (cases "islower (tolower x)")
      case low: True
      with False assms(2) have "letter_index (tolower x) \<noteq> letter_index (tolower ch)"
        using index_inj by blast
      with Cons False show ?thesis
        by (simp add: search_loop_Cons del: search_loop.simps(2))
    next
      case nlow: False
      with Cons False show ?thesis
        by (simp add: search_loop_Cons del: search_loop.simps(2))
    qed
  qed
qed

lemma insert_loop_search:
  assumes "wf_node n" "insert_loop w n mem tw h = (ok, n', mem', tw')"
  shows "search_loop v n' = (search_loop v n \<or> (ok \<and> map tolower v = map tolower w))"
proof -
  have "wf_node n' \<and>
        (\<forall>v. search_loop v n' = (search_loop v n \<or> (ok \<and> map tolower v = map tolower w)))"
    using assms
  proof (induction rule: insert_loop_induct)
    case (End n mem tw h)
    show ?case
    proof
      fix v show "search_loop v (TrieNode (children n) True (word_count n + 1)) =
                  (search_loop v n \<or> True \<and> map tolower v = map tolower [])"
        by (cases v) (simp_all add: search_loop_Cons del: search_loop.simps(2))
    qed
  next
    case (Reject ch rest n mem tw h)
    then show ?case by simp
  next
    case (NoMem ch rest n mem tw h)
    then show ?case by simp
  next
    case (Fresh ch rest n mem tw h ok c' mem' tw')
    show ?case
    proof
      fix v
      show "search_loop v (TrieNode ((children n)[letter_index (tolower ch) := Some c'])
                (is_end_of_word n) (word_count n)) =
            (search_loop v n \<or> ok \<and> map tolower v = map tolower (ch # rest))"
        using Fresh.IH Fresh.hyps(2,3)
        by (cases v)
           (auto simp add: search_loop_update[OF Fresh.hyps(1,2)] search_loop_fresh search_loop_Cons
                 simp del: search_loop.simps(2))
    qed
  next
    case (Descend ch rest n mem tw h child ok c' mem' tw')
    show ?case
    proof
      fix v
      show "search_loop v (TrieNode ((children n)[letter_index (tolower ch) := Some c'])
                (is_end_of_word n) (word_count n)) =
            (search_loop v n \<or> ok \<and> map tolower v = map tolower (ch # rest))"
        using Descend.IH Descend.hyps(2,3)
        by (cases v)
           (auto simp add: search_loop_update[OF Descend.hyps(1,2)] search_loop_Cons
                 simp del: search_loop.simps(2))
    qed
  qed
  then show ?thesis by blast
qed


lemma sum_list_map_update:
  fixes f :: "'a \<Rightarrow> nat"
  shows "i < length cs \<Longrightarrow>
         sum_list (map f (cs[i := y])) + f (cs ! i) = sum_list (map f cs) + f y"
proof (induction cs arbitrary: i)
  case Nil
  then show ?case by simp
next
  case (Cons c cs)
  then show ?case by (cases i) (simp_all add: add.assoc add.left_commute)
qed

lemma memory_usage_fold:
  "fold (\<lambda>child usage. if child \<noteq> None then usage + trie_node_memory_usage child else usage)
     cs acc =
   acc + sum_list (map trie_node_memory_usage cs)"
proof (induction cs arbitrary: acc)
  case Nil
  show ?case by simp
next
  case (Cons c cs)
  show ?case
    by (cases c) (simp_all add: Cons.IH del: trie_node_memory_usage.simps(2) not_None_eq)
qed

lemma trie_node_memory_usage_Some:
  "trie_node_memory_usage (Some (TrieNode cs e wc)) =
   sizeof_TrieNode + sum_list (map trie_node_memory_usage cs)"
  by (simp add: memory_usage_fold del: not_None_eq)

lemma count_end_update:
  assumes "i < length (children n)"
  shows "count_end (TrieNode ((children n)[i := Some c']) (is_end_of_word n) wc) +
           (case children n ! i of None \<Rightarrow> 0 | Some m \<Rightarrow> count_end m) =
         count_end n + count_end c'"
  using sum_list_map_update[OF assms,
      of "\<lambda>c. case c of None \<Rightarrow> 0 | Some m \<Rightarrow> count_end m" "Some c'"]
  by (cases n) simp

lemma memory_usage_update:
  assumes "i < length (children n)"
  shows "trie_node_memory_usage (Some (TrieNode ((children n)[i := Some c']) e wc)) +
           trie_node_memory_usage (children n ! i) =
         trie_node_memory_usage (Some n) + trie_node_memory_usage (Some c')"
  using sum_list_map_update[OF assms, of trie_node_memory_usage "Some c'"]
  by (cases n) (simp add: trie_node_memory_usage_Some del: trie_node_memory_usage.simps(2))

lemma count_end_fresh: "count_end fresh_node = 0"
  by (simp add: fresh_node_def)

lemma memory_usage_fresh: "trie_node_memory_usage (Some fresh_node) = sizeof_TrieNode"
  by (simp add: fresh_node_def trie_node_memory_usage_Some del: trie_node_memory_usage.simps(2))

lemma insert_loop_counters:
  assumes "wf_node n" "insert_loop w n mem tw h = (ok, n', mem', tw')"
  shows "tw' = tw + (if ok \<and> \<not> search_loop w n then 1 else 0)"
    and "count_end n' = count_end n + (if ok \<and> \<not> search_loop w n then 1 else 0)"
    and "mem' + trie_node_memory_usage (Some n) = mem + trie_node_memory_usage (Some n')"
proof -
  have "wf_node n' \<and>
        (tw' = tw + (if ok \<and> \<not> search_loop w n then 1 else 0) \<and>
         count_end n' = count_end n + (if ok \<and> \<not> search_loop w n then 1 else 0) \<and>
         mem' + trie_node_memory_usage (Some n) = mem + trie_node_memory_usage (Some n'))"
    using assms
  proof (induction rule: insert_loop_induct)
    case (End n mem tw h)
    show ?case by (cases n) (simp add: trie_node_memory_usage_Some del: trie_node_memory_usage.simps(2))
  next
    case (Reject ch rest n mem tw h)
    then show ?case by simp
  next
    case (NoMem ch rest n mem tw h)
    then show ?case by simp
  next
    case (Fresh ch rest n mem tw h ok c' mem' tw')
    from Fresh.hyps(1,2) have len: "letter_index (tolower ch) < length (children n)"
      by (simp add: wf_node_children index_bound)
    from Fresh.hyps(2,3) have ns: "\<not> search_loop (ch # rest) n"
      by (simp add: search_loop_Cons del: search_loop.simps(2))
    show ?case
      using Fresh.IH count_end_update[OF len, of c' "word_count n"]
        memory_usage_update[OF len, of c' "is_end_of_word n" "word_count n"] Fresh.hyps(3) ns
      by (simp add: search_loop_fresh count_end_fresh memory_usage_fresh
               del: search_loop.simps(2) trie_node_memory_usage.simps(2) count_end.simps)
  next
    case (Descend ch rest n mem tw h child ok c' mem' tw')
    from Descend.hyps(1,2) have len: "letter_index (tolower ch) < length (children n)"
      by (simp add: wf_node_children index_bound)
    from Descend.hyps(2,3) have ns: "search_loop (ch # rest) n = search_loop rest child"
      by (simp add: search_loop_Cons del: search_loop.simps(2))
    show ?case
      using Descend.IH count_end_update[OF len, of c' "word_count n"]
        memory_usage_update[OF len, of c' "is_end_of_word n" "word_count n"] Descend.hyps(3) ns
      by (simp del: search_loop.simps(2) trie_node_memory_usage.simps(2) count_end.simps)
  qed
  then show "tw' = tw + (if ok \<and> \<not> search_loop w n then 1 else 0)"
    and "count_end n' = count_end n + (if ok \<and> \<not> search_loop w n then 1 else 0)"
    and "mem' + trie_node_memory_usage (Some n) = mem + trie_node_memory_usage (Some n')"
    by simp_all
qed


lemma search_loop_tolower: "search_loop (map tolower w) n = search_loop w n"
  by (induction w arbitrary: n)
     (auto simp add: search_loop_Cons tolower_idem split: option.splits
           simp del: search_loop.simps(2))

lemma search_loop_cong_tolower:
  "map tolower v = map tolower w \<Longrightarrow> search_loop v n = search_loop w n"
  using search_loop_tolower[of v n] search_loop_tolower[of w n] by simp

lemma search_loop_nonalpha:
  "\<exists>c \<in> set w. \<not> isalpha c \<Longrightarrow> \<not> search_loop w n"
  by (induction w arbitrary: n)
     (auto simp add: search_loop_Cons tolower_islower_iff split: option.splits
           simp del: search_loop.simps(2))

lemma trie_insert_None [simp]: "trie_insert h None wd = (False, None)"
  by (simp add: trie_insert_def)

lemma trie_insert_Some_ex: "\<exists>ok t'. trie_insert h (Some t) wd = (ok, Some t')"
  by (auto simp: trie_insert_def split: option.splits prod.splits)

lemma trie_insert_props:
  assumes wf: "wf_node (root t)"
    and ins: "trie_insert h (Some t) wd = (ok, trie')"
  shows "\<exists>t'. trie' = Some t' \<and> wf_node (root t') \<and>
           (\<forall>v. trie_search (Some t') (Some v) =
                  (trie_search (Some t) (Some v) \<or>
                   (ok \<and> (\<exists>w. wd = Some w \<and> map tolower v = map tolower w)))) \<and>
           Trie.total_words t' - Trie.total_words t = int (count_end (root t')) - int (count_end (root t)) \<and>
           Trie.total_words t' =
             Trie.total_words t + (if ok \<and> \<not> trie_search (Some t) wd then 1 else 0) \<and>
           memory_usage t' + trie_get_memory_usage (Some t) =
             memory_usage t + trie_get_memory_usage (Some t')"
proof (cases "\<exists>w. wd = Some w \<and> w \<noteq> []")
  case False
  then have "trie' = Some t" "\<not> ok"
    using ins by (auto simp: trie_insert_def split: option.splits)
  then show ?thesis using wf by simp
next
  case True
  then obtain w where w: "wd = Some w" "w \<noteq> []" by blast
  obtain ok1 r mem tw where
    loop: "insert_loop w (root t) (memory_usage t) (Trie.total_words t) h = (ok1, r, mem, tw)"
    using prod_cases4 by blast
  from ins w loop have res: "ok = ok1"
    "trie' = Some \<lparr>root = r, Trie.total_words = tw, memory_usage = mem\<rparr>"
    by (simp_all add: trie_insert_def)
  have s: "\<And>v. search_loop v r = (search_loop v (root t) \<or> (ok1 \<and> map tolower v = map tolower w))"
    by (rule insert_loop_search[OF wf loop])
  have wf': "wf_node r"
    using insert_loop_induct[OF wf loop, of "\<lambda>_ _ _ _ _ _ _ _ _. True"] by simp
  note c = insert_loop_counters[OF wf loop]
  have "\<forall>v. trie_search (Some \<lparr>root = r, Trie.total_words = tw, memory_usage = mem\<rparr>) (Some v) =
         (trie_search (Some t) (Some v) \<or>
          (ok1 \<and> (\<exists>w'. wd = Some w' \<and> map tolower v = map tolower w')))"
    using w s by (auto simp: trie_search_def)
  then show ?thesis
    unfolding res using wf' c w by (simp add: trie_search_def trie_get_memory_usage_def)
qed


lemma trie_create_inv: "trie_create h0 = Some t0 \<Longrightarrow> trie_inv t0"
  by (auto simp: trie_create_def trie_node_create_def trie_inv_def trie_get_memory_usage_def
                 trie_node_memory_usage_Some
           simp del: trie_node_memory_usage.simps(2)
           split: prod.splits bool.splits)

lemma trie_create_search: "trie_create h0 = Some t0 \<Longrightarrow> \<not> trie_search (Some t0) wd"
  using search_loop_fresh
  by (auto simp: trie_create_def trie_node_create_def trie_search_def fresh_node_def
           split: prod.splits bool.splits option.splits)

lemma trie_insert_inv:
  assumes "trie_inv t" "trie_insert h (Some t) wd = (ok, Some t')"
  shows "trie_inv t'"
  using trie_insert_props[OF _ assms(2)] assms(1)
  by (auto simp: trie_inv_def)

lemma insert_all_props:
  assumes "trie_inv t"
  shows "\<exists>t'. insert_all calls (Some t) = Some t' \<and> trie_inv t' \<and>
           (\<forall>v. trie_search (Some t') (Some v) =
                  (trie_search (Some t) (Some v) \<or>
                   map tolower v \<in> map tolower ` set (accepted_words calls (Some t))))"
  using assms
proof (induction calls arbitrary: t)
  case Nil
  then show ?case by simp
next
  case (Cons call calls)
  obtain h wd where call: "call = (h, wd)" by (cases call)
  obtain ok t1 where ins: "trie_insert h (Some t) wd = (ok, Some t1)"
    using trie_insert_Some_ex by blast
  from trie_insert_inv[OF Cons.prems ins] have inv1: "trie_inv t1" .
  from Cons.prems have wf: "wf_node (root t)" by (simp add: trie_inv_def)
  from trie_insert_props[OF wf ins]
  have s1: "\<And>v. trie_search (Some t1) (Some v) =
                  (trie_search (Some t) (Some v) \<or>
                   (ok \<and> (\<exists>w. wd = Some w \<and> map tolower v = map tolower w)))"
    by simp
  from Cons.IH[OF inv1] obtain t' where
    t': "insert_all calls (Some t1) = Some t'" "trie_inv t'"
      "\<And>v. trie_search (Some t') (Some v) =
             (trie_search (Some t1) (Some v) \<or>
              map tolower v \<in> map tolower ` set (accepted_words calls (Some t1)))"
    by blast
  have "\<forall>v. trie_search (Some t') (Some v) =
         (trie_search (Some t) (Some v) \<or>
          map tolower v \<in> map tolower ` set (accepted_words (call # calls) (Some t)))"
    unfolding t'(3) s1 call using ins
    by (auto split: option.splits)
  with t'(1,2) ins call show ?case by simp
qed


subsection \<open>Claims about normalisation and the prefix dictionary\<close>

text \<open>
  C10. For a non-NULL input, \<open>normalize_word\<close> returns NULL exactly when the input is
  empty, longer than 100 characters, has no alphabetic character, or the allocation fails;
  otherwise it returns the alphabetic characters of the input, case-folded and in order.
  A returned string is never empty and consists of lowercase letters only.
\<close>

theorem normalize_word_result:
  "normalize_word h (Some w) =
     (if w = [] \<or> length w > 100 \<or> (\<forall>c \<in> set w. \<not> isalpha c) \<or> \<not> fst (malloc h)
      then None
      else Some (map tolower (filter isalpha w))) \<and>
   (\<forall>r. normalize_word h (Some w) = Some r \<longrightarrow> r \<noteq> [] \<and> (\<forall>c \<in> set r. islower c))"
proof -
  have eq: "normalize_word h (Some w) =
     (if w = [] \<or> length w > 100 \<or> (\<forall>c \<in> set w. \<not> isalpha c) \<or> \<not> fst (malloc h)
      then None
      else Some (map tolower (filter isalpha w)))"
    by (auto simp: normalize_word_def normalize_loop_eq Let_def filter_empty_conv)
  have low: "\<forall>c \<in> set (map tolower (filter isalpha w)). islower c"
    by (simp add: tolower_islower_iff)
  have ne: "\<not> (\<forall>c \<in> set w. \<not> isalpha c) \<Longrightarrow> map tolower (filter isalpha w) \<noteq> []"
    by (simp add: filter_empty_conv)
  show ?thesis
  proof (intro conjI allI impI)
    show "normalize_word h (Some w) =
     (if w = [] \<or> length w > 100 \<or> (\<forall>c \<in> set w. \<not> isalpha c) \<or> \<not> fst (malloc h)
      then None
      else Some (map tolower (filter isalpha w)))" by (rule eq)
  next
    fix r assume "normalize_word h (Some w) = Some r"
    with eq have "r = map tolower (filter isalpha w)" "\<not> (\<forall>c \<in> set w. \<not> isalpha c)"
      by (auto split: if_splits)
    with low ne show "r \<noteq> []" "\<forall>c \<in> set r. islower c" by blast+
  qed
qed

theorem normalize_word_result_witness:
  "normalize_word [] (Some ''Hel-lo!'') = Some ''hello'' \<and>
   normalize_word [] (Some ''42'') = None \<and>
   normalize_word [False] (Some ''Hello'') = None"
  using normalize_word_result[of "[]" "''Hel-lo!''"]
        normalize_word_result[of "[]" "''42''"]
        normalize_word_result[of "[False]" "''Hello''"]
  by (simp add: isalpha_def isupper_def islower_def tolower_def)

text \<open>
  C9. Lookup is invariant under case-folding of its argument: \<open>trie_search\<close> gives the
  same answer for a word and for its lowercase form, on every dictionary. So a word with
  uppercase letters is found whenever its lowercase form is among the words that a run of
  \<open>trie_insert\<close> calls on the empty dictionary has accepted.
\<close>

theorem trie_search_case_insensitive:
  "trie_search trie (map_option (map tolower) wd) = trie_search trie wd \<and>
   (trie_create h0 = Some t0 \<longrightarrow>
    map tolower w \<in> set (accepted_words calls (Some t0)) \<longrightarrow>
    trie_search (insert_all calls (Some t0)) (Some w))"
proof (intro conjI impI)
  show "trie_search trie (map_option (map tolower) wd) = trie_search trie wd"
    by (cases trie; cases wd) (simp_all add: trie_search_def search_loop_tolower)
next
  assume t0: "trie_create h0 = Some t0"
    and acc: "map tolower w \<in> set (accepted_words calls (Some t0))"
  have "map tolower (map tolower w) = map tolower w"
    by (simp add: tolower_idem)
  with acc have "map tolower w \<in> map tolower ` set (accepted_words calls (Some t0))"
    by (metis imageI)
  with insert_all_props[OF trie_create_inv[OF t0], of calls] trie_create_search[OF t0]
  show "trie_search (insert_all calls (Some t0)) (Some w)"
    by auto
qed

theorem trie_search_case_insensitive_witness:
  "trie_create [] \<noteq> None \<and>
   map tolower ''HeLLo'' \<in>
     set (accepted_words [([], Some ''cat''), ([], Some ''hello'')] (trie_create [])) \<and>
   trie_search (insert_all [([], Some ''cat''), ([], Some ''hello'')] (trie_create []))
     (Some ''HeLLo'') \<and>
   trie_search (insert_all [([], Some ''cat''), ([], Some ''hello'')] (trie_create []))
     (Some ''hello'')"
proof -
  let ?calls = "[([], Some ''cat''), ([], Some ''hello'')]"
  have ne: "trie_create [] \<noteq> None"
    by (simp add: trie_create_def trie_node_create_def)
  have c: "trie_create [] = Some (the (trie_create []))"
    by (rule option.collapse[OF ne, symmetric])
  have acc: "accepted_words ?calls (trie_create []) = [''cat'', ''hello'']"
    by code_simp
  have low: "map tolower ''HeLLo'' = ''hello''"
    by (simp add: tolower_def isupper_def)
  have m: "map tolower ''HeLLo'' \<in> set (accepted_words ?calls (trie_create []))"
    unfolding acc low by simp
  note t = trie_search_case_insensitive[where trie = "insert_all ?calls (trie_create [])"
             and wd = "Some ''HeLLo''" and ?h0.0 = "[]" and ?t0.0 = "the (trie_create [])"
             and w = "''HeLLo''" and calls = ?calls]
  from t c m have s1: "trie_search (insert_all ?calls (trie_create [])) (Some ''HeLLo'')"
    by (metis (no_types))
  from t s1 low have s2: "trie_search (insert_all ?calls (trie_create [])) (Some ''hello'')"
    by (metis (no_types) option.simps(9))
  from ne m s1 s2 show ?thesis by blast
qed

text \<open>
  C3. A word whose insertion into an empty dictionary returned true is found right after
  the insertion, and is still found after any further sequence of \<open>trie_insert\<close> calls,
  whatever their arguments and whether or not their allocations succeed.
\<close>

theorem inserted_word_is_found:
  assumes "trie_create h0 = Some t0"
    and "trie_insert h (Some t0) (Some w) = (True, trie1)"
  shows "trie_search trie1 (Some w) \<and> trie_search (insert_all calls trie1) (Some w)"
proof -
  from assms(1) have inv0: "trie_inv t0" by (rule trie_create_inv)
  then have wf0: "wf_node (root t0)" by (simp add: trie_inv_def)
  from trie_insert_props[OF wf0 assms(2)] obtain t1 where
    t1: "trie1 = Some t1" "trie_search (Some t1) (Some w)"
    by auto
  from trie_insert_inv[OF inv0 assms(2)[unfolded t1(1)]] have "trie_inv t1" .
  from insert_all_props[OF this, of calls] t1 show ?thesis by auto
qed

theorem inserted_word_is_found_witness:
  "trie_create [] \<noteq> None \<and>
   fst (trie_insert [] (trie_create []) (Some ''cat'')) \<and>
   trie_search (snd (trie_insert [] (trie_create []) (Some ''cat''))) (Some ''cat'') \<and>
   trie_search
     (insert_all [([], Some ''car''), ([True, False], Some ''dog''), ([], Some ''c4t'')]
        (snd (trie_insert [] (trie_create []) (Some ''cat''))))
     (Some ''cat'')"
proof -
  have ne: "trie_create [] \<noteq> None"
    by (simp add: trie_create_def trie_node_create_def)
  have c: "trie_create [] = Some (the (trie_create []))"
    by (rule option.collapse[OF ne, symmetric])
  have f: "fst (trie_insert [] (trie_create []) (Some ''cat''))"
    by code_simp
  then have "trie_insert [] (trie_create []) (Some ''cat'') =
             (True, snd (trie_insert [] (trie_create []) (Some ''cat'')))"
    by (metis prod.collapse)
  then have i: "trie_insert [] (Some (the (trie_create []))) (Some ''cat'') =
                (True, snd (trie_insert [] (trie_create []) (Some ''cat'')))"
    using c by (simp only:)
  from inserted_word_is_found[OF c i] ne f show ?thesis
    by blast
qed

lemma insert_loop_mem_mono:
  assumes "wf_node n" "insert_loop w n mem tw h = (ok, n', mem', tw')"
  shows "mem \<le> mem'"
proof -
  have "wf_node n' \<and> mem \<le> mem'"
    using assms by (induction rule: insert_loop_induct) simp_all
  then show ?thesis by simp
qed

lemma trie_insert_mem_mono:
  assumes "wf_node (root t)" "trie_insert h (Some t) wd = (ok, Some t')"
  shows "memory_usage t \<le> memory_usage t'"
proof (cases "\<exists>w. wd = Some w \<and> w \<noteq> []")
  case False
  then have "t' = t"
    using assms(2) by (auto simp: trie_insert_def split: option.splits)
  then show ?thesis by simp
next
  case True
  then obtain w where w: "wd = Some w" "w \<noteq> []" by blast
  obtain ok1 r mem tw where
    loop: "insert_loop w (root t) (memory_usage t) (Trie.total_words t) h = (ok1, r, mem, tw)"
    using prod_cases4 by blast
  from assms(2) w loop have "memory_usage t' = mem"
    by (auto simp: trie_insert_def)
  with insert_loop_mem_mono[OF assms(1) loop] show ?thesis by simp
qed

text \<open>
  C7. In every dictionary state reached from \<open>trie_create\<close> by a sequence of
  \<open>trie_insert\<close> calls, \<open>Trie.total_words\<close> equals the number of nodes whose end-of-word
  flag is set, and no further \<open>trie_insert\<close> call makes \<open>memory_usage\<close> smaller.
\<close>

theorem reachable_counters:
  assumes "trie_create h0 = Some t0"
    and "insert_all calls (Some t0) = Some t"
  shows "Trie.total_words t = int (count_end (root t)) \<and>
         (\<forall>h wd ok t'. trie_insert h (Some t) wd = (ok, Some t') \<longrightarrow>
            memory_usage t \<le> memory_usage t')"
proof -
  from insert_all_props[OF trie_create_inv[OF assms(1)], of calls] assms(2)
  have inv: "trie_inv t" by auto
  then have "wf_node (root t)" by (simp add: trie_inv_def)
  then have "\<forall>h wd ok t'. trie_insert h (Some t) wd = (ok, Some t') \<longrightarrow>
            memory_usage t \<le> memory_usage t'"
    using trie_insert_mem_mono by blast
  with inv show ?thesis by (simp add: trie_inv_def)
qed

theorem reachable_counters_witness:
  "insert_all [([], Some ''cat''), ([], Some ''car''), ([], Some ''cat''), ([False], Some ''do'')]
     (trie_create []) \<noteq> None \<and>
   Trie.total_words (the (insert_all [([], Some ''cat''), ([], Some ''car''), ([], Some ''cat''),
     ([False], Some ''do'')] (trie_create []))) = 2 \<and>
   int (count_end (root (the (insert_all [([], Some ''cat''), ([], Some ''car''), ([], Some ''cat''),
     ([False], Some ''do'')] (trie_create []))))) = 2"
proof -
  let ?calls = "[([], Some ''cat''), ([], Some ''car''), ([], Some ''cat''), ([False], Some ''do'')]"
  have ne: "trie_create [] \<noteq> None"
    by (simp add: trie_create_def trie_node_create_def)
  have c: "trie_create [] = Some (the (trie_create []))"
    by (rule option.collapse[OF ne, symmetric])
  have ne2: "insert_all ?calls (trie_create []) \<noteq> None"
    by code_simp
  have r: "insert_all ?calls (Some (the (trie_create []))) =
           Some (the (insert_all ?calls (trie_create [])))"
    using option.collapse[OF ne2, symmetric] c by (simp only:)
  have tw: "Trie.total_words (the (insert_all ?calls (trie_create []))) = 2"
    by code_simp
  from reachable_counters[OF c r] ne2 tw show ?thesis
    by (simp only:) simp
qed


text \<open>
  C5, as the code has it. On a dictionary built from \<open>trie_create\<close> by \<open>trie_insert\<close>
  calls, \<open>trie_search\<close> is true exactly for the words whose lowercase form is the
  lowercase form of a word that an insertion accepted: it is false for every other word.
  On any dictionary it is false for a word with a character that is not a letter. The
  result is a boolean in every case.
\<close>

theorem search_rejects_unknown_words:
  assumes "trie_create h0 = Some t0"
  shows "(trie_search (insert_all calls (Some t0)) (Some v) \<longleftrightarrow>
            map tolower v \<in> map tolower ` set (accepted_words calls (Some t0))) \<and>
         ((\<exists>c \<in> set v. \<not> isalpha c) \<longrightarrow> \<not> trie_search trie (Some v))"
proof -
  from insert_all_props[OF trie_create_inv[OF assms], of calls] trie_create_search[OF assms]
  have "trie_search (insert_all calls (Some t0)) (Some v) \<longleftrightarrow>
            map tolower v \<in> map tolower ` set (accepted_words calls (Some t0))"
    by auto
  moreover have "(\<exists>c \<in> set v. \<not> isalpha c) \<longrightarrow> \<not> trie_search trie (Some v)"
    using search_loop_nonalpha[of v]
    by (cases trie) (auto simp: trie_search_def)
  ultimately show ?thesis by blast
qed

theorem search_rejects_unknown_words_witness:
  "trie_create [] \<noteq> None \<and>
   accepted_words [([], Some ''Cat''), ([], Some ''d0g'')] (trie_create []) = [''Cat''] \<and>
   trie_search (insert_all [([], Some ''Cat''), ([], Some ''d0g'')] (trie_create [])) (Some ''cAT'') \<and>
   \<not> trie_search (insert_all [([], Some ''Cat''), ([], Some ''d0g'')] (trie_create [])) (Some ''dog'') \<and>
   \<not> trie_search (insert_all [([], Some ''Cat''), ([], Some ''d0g'')] (trie_create [])) (Some ''d0g'')"
proof -
  let ?calls = "[([], Some ''Cat''), ([], Some ''d0g'')]"
  have ne: "trie_create [] \<noteq> None"
    by (simp add: trie_create_def trie_node_create_def)
  have c: "trie_create [] = Some (the (trie_create []))"
    by (rule option.collapse[OF ne, symmetric])
  have acc: "accepted_words ?calls (trie_create []) = [''Cat'']"
    by code_simp
  have m1: "map tolower ''cAT'' \<in> map tolower ` set [''Cat'']"
    by (simp add: tolower_def isupper_def)
  have m2: "map tolower ''dog'' \<notin> map tolower ` set [''Cat'']"
    by (simp add: tolower_def isupper_def)
  have na: "\<exists>c \<in> set ''d0g''. \<not> isalpha c"
    by (simp add: isalpha_def isupper_def islower_def)
  note t = search_rejects_unknown_words[OF c, of ?calls]
  from t[of "''cAT''"] m1 have s1: "trie_search (insert_all ?calls (trie_create [])) (Some ''cAT'')"
    unfolding c[symmetric] acc by blast
  from t[of "''dog''"] m2 have s2: "\<not> trie_search (insert_all ?calls (trie_create [])) (Some ''dog'')"
    unfolding c[symmetric] acc by blast
  from t[of "''d0g''" "insert_all ?calls (trie_create [])"] na
  have s3: "\<not> trie_search (insert_all ?calls (trie_create [])) (Some ''d0g'')"
    by blast
  from ne acc s1 s2 s3 show ?thesis by blast
qed

text \<open>
  C5 as stated fails: after inserting "hello", the word "Hello" was never inserted and
  has the character H outside a--z, and \<open>trie_search\<close> returns true for it.
\<close>

theorem search_finds_uppercase_counterexample:
  "fst (trie_insert [] (trie_create []) (Some ''hello'')) \<and>
   accepted_words [([], Some ''hello'')] (trie_create []) = [''hello''] \<and>
   ''Hello'' \<noteq> ''hello'' \<and>
   CHR ''H'' \<in> set ''Hello'' \<and> \<not> islower (CHR ''H'') \<and>
   trie_search (snd (trie_insert [] (trie_create []) (Some ''hello''))) (Some ''Hello'')"
  by code_simp

text \<open>
  C6, as the code has it. When \<open>trie_insert\<close> returns false, every lookup answers as
  before and \<open>Trie.total_words\<close> and the number of flagged nodes are unchanged. The memory
  estimate is not smaller than before: it has grown by the size of the nodes the call
  created before it failed, and the dictionary is untouched when the word is NULL or
  empty.
\<close>

theorem failed_insert_effect:
  assumes "wf_node (root t)"
    and "trie_insert h (Some t) wd = (False, trie')"
  shows "\<exists>t'. trie' = Some t' \<and>
           (\<forall>v. trie_search (Some t') v = trie_search (Some t) v) \<and>
           Trie.total_words t' = Trie.total_words t \<and>
           count_end (root t') = count_end (root t) \<and>
           memory_usage t \<le> memory_usage t' \<and>
           memory_usage t' - memory_usage t =
             trie_get_memory_usage (Some t') - trie_get_memory_usage (Some t) \<and>
           (wd = None \<or> wd = Some [] \<longrightarrow> t' = t)"
proof -
  from trie_insert_props[OF assms] obtain t' where
    t': "trie' = Some t'"
      "\<And>v. trie_search (Some t') (Some v) = trie_search (Some t) (Some v)"
      "Trie.total_words t' - Trie.total_words t = int (count_end (root t')) - int (count_end (root t))"
      "Trie.total_words t' = Trie.total_words t"
      "memory_usage t' + trie_get_memory_usage (Some t) =
         memory_usage t + trie_get_memory_usage (Some t')"
    by auto
  have s: "\<forall>v. trie_search (Some t') v = trie_search (Some t) v"
  proof
    fix v show "trie_search (Some t') v = trie_search (Some t) v"
      by (cases v) (simp_all add: t'(2), simp add: trie_search_def)
  qed
  have mono: "memory_usage t \<le> memory_usage t'"
    using trie_insert_mem_mono[OF assms(1)] assms(2) t'(1) by blast
  have triv: "wd = None \<or> wd = Some [] \<longrightarrow> t' = t"
    using assms(2) t'(1) by (auto simp: trie_insert_def)
  from t' s mono triv show ?thesis by auto
qed


theorem failed_insert_effect_witness:
  "wf_node (root (the (trie_create []))) \<and>
   \<not> fst (trie_insert [True, False] (trie_create []) (Some ''ab'')) \<and>
   snd (trie_insert [True, False] (trie_create []) (Some ''ab'')) \<noteq> None \<and>
   Trie.total_words (the (snd (trie_insert [True, False] (trie_create []) (Some ''ab'')))) =
     Trie.total_words (the (trie_create [])) \<and>
   memory_usage (the (trie_create [])) \<le>
     memory_usage (the (snd (trie_insert [True, False] (trie_create []) (Some ''ab''))))"
proof -
  let ?r = "trie_insert [True, False] (trie_create []) (Some ''ab'')"
  have ne: "trie_create [] \<noteq> None"
    by (simp add: trie_create_def trie_node_create_def)
  have c: "Some (the (trie_create [])) = trie_create []"
    by (rule option.collapse[OF ne])
  have wf: "wf_node (root (the (trie_create [])))"
    by code_simp
  have f: "\<not> fst ?r"
    by code_simp
  then have i: "trie_insert [True, False] (Some (the (trie_create []))) (Some ''ab'') =
                (False, snd ?r)"
    unfolding c by (metis prod.collapse)
  from failed_insert_effect[OF wf i] obtain t' where
    "snd ?r = Some t'" "Trie.total_words t' = Trie.total_words (the (trie_create []))"
    "memory_usage (the (trie_create [])) \<le> memory_usage t'"
    by blast
  with wf f show ?thesis by simp
qed

text \<open>
  C6 as stated fails: inserting "a1" into the empty dictionary returns false after the
  node for "a" has been created, and the memory estimate has grown from 240 to 456. The
  same happens when the allocation of the second node of "ab" fails.
\<close>

theorem failed_insert_grows_memory_counterexample:
  "\<not> fst (trie_insert [] (trie_create []) (Some ''a1'')) \<and>
   memory_usage (the (trie_create [])) = 240 \<and>
   memory_usage (the (snd (trie_insert [] (trie_create []) (Some ''a1'')))) = 456 \<and>
   trie_get_memory_usage (trie_create []) = 240 \<and>
   trie_get_memory_usage (snd (trie_insert [] (trie_create []) (Some ''a1''))) = 456 \<and>
   \<not> fst (trie_insert [True, False] (trie_create []) (Some ''ab'')) \<and>
   memory_usage (the (snd (trie_insert [True, False] (trie_create []) (Some ''ab'')))) = 456"
  by code_simp

lemma malloc_no_failure:
  assumes "no_failure h"
  obtains h1 where "malloc h = (True, h1)" "no_failure h1"
  using assms by (cases h) (simp_all add: no_failure_def)

lemma lev_col0: "lev a b i 0 = int i"
  by (cases i) simp_all

lemma init_row_fold:
  assumes "m \<le> length row"
  shows "length (fold (\<lambda>j row. row[j := int j]) [0..<m] row) = length row \<and>
         (\<forall>j < m. fold (\<lambda>j row. row[j := int j]) [0..<m] row ! j = int j)"
  using assms
proof (induction m)
  case 0
  show ?case by simp
next
  case (Suc m)
  then show ?case by (auto simp: nth_list_update less_Suc_eq)
qed

lemma init_row_correct:
  assumes "length row = n + 1"
  shows "length (init_row n row) = n + 1" and "j \<le> n \<Longrightarrow> init_row n row ! j = lev a b 0 j"
  using init_row_fold[of "n + 1" row] assms by (simp_all add: init_row_def)

lemma length_row_cell [simp]: "length (row_cell a b i prev j cur) = length cur"
  by (simp add: row_cell_def Let_def)

lemma row_cell_other: "k \<noteq> j \<Longrightarrow> row_cell a b i prev j cur ! k = cur ! k"
  by (simp add: row_cell_def Let_def)

lemma row_cell_here:
  assumes "Suc j < length cur" "prev ! j = lev a b i j" "prev ! Suc j = lev a b i (Suc j)"
    "cur ! j = lev a b (Suc i) j"
  shows "row_cell a b (Suc i) prev (Suc j) cur ! Suc j = lev a b (Suc i) (Suc j)"
  using assms by (simp add: row_cell_def Let_def)

lemma fill_row_fold:
  assumes "length cur = n + 1"
    and "\<forall>j \<le> n. prev ! j = lev a b i j"
    and "cur ! 0 = lev a b (Suc i) 0"
    and "m \<le> n"
  shows "length (fold (row_cell a b (Suc i) prev) [1..<m + 1] cur) = n + 1 \<and>
         (\<forall>j \<le> m. fold (row_cell a b (Suc i) prev) [1..<m + 1] cur ! j = lev a b (Suc i) j)"
  using assms(4)
proof (induction m)
  case 0
  show ?case using assms(1,3) by simp
next
  case (Suc m)
  let ?r = "fold (row_cell a b (Suc i) prev) [1..<m + 1] cur"
  from Suc have ih: "length ?r = n + 1" "\<forall>j \<le> m. ?r ! j = lev a b (Suc i) j" by simp_all
  have step: "fold (row_cell a b (Suc i) prev) [1..<Suc m + 1] cur =
              row_cell a b (Suc i) prev (Suc m) ?r"
    by simp
  have here: "row_cell a b (Suc i) prev (Suc m) ?r ! Suc m = lev a b (Suc i) (Suc m)"
    using ih Suc.prems assms(2) by (intro row_cell_here) simp_all
  show ?case unfolding step
  proof (intro conjI allI impI)
    show "length (row_cell a b (Suc i) prev (Suc m) ?r) = n + 1" using ih(1) by simp
  next
    fix j assume "j \<le> Suc m"
    then show "row_cell a b (Suc i) prev (Suc m) ?r ! j = lev a b (Suc i) j"
      using here ih(2) by (cases "j = Suc m") (simp_all add: row_cell_other)
  qed
qed

lemma fill_row_correct:
  assumes "length cur = n + 1" and "\<forall>j \<le> n. prev ! j = lev a b i j"
  shows "length (fill_row a b n (Suc i) prev cur) = n + 1"
    and "\<forall>j \<le> n. fill_row a b n (Suc i) prev cur ! j = lev a b (Suc i) j"
  using fill_row_fold[of "cur[0 := int (Suc i)]" n prev a b i n] assms
  by (simp_all add: fill_row_def)

lemma row_loop_correct:
  assumes "length prev = n + 1" "length cur = n + 1" "\<forall>j \<le> n. prev ! j = lev a b 0 j"
  shows "length (fst (row_loop a b k n (prev, cur))) = n + 1 \<and>
         length (snd (row_loop a b k n (prev, cur))) = n + 1 \<and>
         (\<forall>j \<le> n. fst (row_loop a b k n (prev, cur)) ! j = lev a b k j)"
proof (induction k)
  case 0
  show ?case using assms by (simp add: row_loop_def)
next
  case (Suc k)
  obtain p c where pc: "row_loop a b k n (prev, cur) = (p, c)" by (cases "row_loop a b k n (prev, cur)")
  with Suc have ih: "length p = n + 1" "length c = n + 1" "\<forall>j \<le> n. p ! j = lev a b k j"
    by simp_all
  have step: "row_loop a b (Suc k) n (prev, cur) = (fill_row a b n (Suc k) p c, p)"
    using pc by (simp add: row_loop_def)
  show ?case unfolding step using fill_row_correct[OF ih(2,3)] ih(1) by simp
qed

lemma compute_edit_distance_lev:
  assumes "no_failure h"
  shows "compute_edit_distance h (Some a) (Some b) = lev a b (length a) (length b)"
proof (cases "a = [] \<or> b = []")
  case True
  then show ?thesis by (auto simp: compute_edit_distance_def lev_col0 Let_def)
next
  case False
  let ?n = "length b"
  let ?p = "init_row ?n (fresh_ints (?n + 1))"
  from assms obtain h1 where h1: "malloc h = (True, h1)" "no_failure h1"
    by (rule malloc_no_failure)
  from h1(2) obtain h2 where h2: "malloc h1 = (True, h2)" "no_failure h2"
    by (rule malloc_no_failure)
  note m = h1(1) h2(1)
  have p: "length ?p = ?n + 1" "\<forall>j \<le> ?n. ?p ! j = lev a b 0 j"
    using init_row_correct[of "fresh_ints (?n + 1)" ?n] by (simp_all add: fresh_ints_def)
  from row_loop_correct[OF p(1) _ p(2), of "fresh_ints (?n + 1)" "length a"]
  have "fst (row_loop a b (length a) ?n (?p, fresh_ints (?n + 1))) ! ?n = lev a b (length a) ?n"
    by (simp add: fresh_ints_def)
  with False m show ?thesis
    by (simp add: compute_edit_distance_def Let_def case_prod_beta)
qed

subsection \<open>Claims about the distance engine\<close>

text \<open>
  C8. For non-NULL strings and \<open>target_len\<close> equal to the length of \<open>target\<close>, when no
  allocation fails, \<open>get_distance_row\<close> returns a row of \<open>target_len + 1\<close> entries whose
  last entry, at index \<open>target_len\<close>, is the value of \<open>compute_edit_distance\<close> on the same
  two strings.
\<close>

theorem distance_row_agrees:
  assumes "no_failure h" "no_failure h'" "target_len = int (length target)"
  shows "\<exists>row. get_distance_row h (Some wd) (Some target) target_len = Some row \<and>
               length row = length target + 1 \<and>
               row ! length target = compute_edit_distance h' (Some wd) (Some target)"
proof -
  let ?n = "length target"
  let ?r = "init_row ?n (fresh_ints (?n + 1))"
  from assms(1) obtain h1 where h1: "malloc h = (True, h1)" "no_failure h1"
    by (rule malloc_no_failure)
  from h1(2) obtain h2 where h2: "malloc h1 = (True, h2)" "no_failure h2"
    by (rule malloc_no_failure)
  note m = h1(1) h2(1)
  have r: "length ?r = ?n + 1" "\<forall>j \<le> ?n. ?r ! j = lev wd target 0 j"
    using init_row_correct[of "fresh_ints (?n + 1)" ?n] by (simp_all add: fresh_ints_def)
  note d = compute_edit_distance_lev[OF assms(2), of wd target]
  show ?thesis
  proof (cases "wd = []")
    case True
    with m r d assms(3) show ?thesis
      by (simp add: get_distance_row_def Let_def case_prod_beta)
  next
    case False
    from row_loop_correct[OF r(1) r(1) r(2), of "length wd"]
    have "length (fst (row_loop wd target (length wd) ?n (?r, ?r))) = ?n + 1"
      "fst (row_loop wd target (length wd) ?n (?r, ?r)) ! ?n = lev wd target (length wd) ?n"
      by simp_all
    with False m d assms(3) show ?thesis
      by (simp add: get_distance_row_def Let_def case_prod_beta)
  qed
qed


lemma dims_update:
  assumes "dims dp r c"
  shows "dims (dp[i := (dp ! i)[j := v]]) r c"
  unfolding dims_def
proof (intro conjI allI impI)
  show "length (dp[i := (dp ! i)[j := v]]) = r" using assms by (simp add: dims_def)
next
  fix k assume "k < r"
  with assms show "length (dp[i := (dp ! i)[j := v]] ! k) = c"
    by (cases "k = i") (simp_all add: dims_def)
qed

lemma nth_mat_update:
  assumes "dims dp r c" "i < r" "j < c"
  shows "dp[i := (dp ! i)[j := v]] ! i' ! j' = (if i' = i \<and> j' = j then v else dp ! i' ! j')"
  using assms by (cases "i' = i") (auto simp: dims_def nth_list_update)

lemma alloc_rows_ok:
  assumes "no_failure h"
  shows "\<exists>h'. alloc_rows k n h = (Some (replicate k (fresh_ints n)), h') \<and> no_failure h'"
  using assms
proof (induction k arbitrary: h)
  case 0
  then show ?case by simp
next
  case (Suc k)
  from Suc.prems obtain h1 where h1: "malloc h = (True, h1)" "no_failure h1"
    by (rule malloc_no_failure)
  from Suc.IH[OF h1(2)] obtain h' where
    "alloc_rows k n h1 = (Some (replicate k (fresh_ints n)), h')" "no_failure h'" by blast
  with h1 show ?case by simp
qed

lemma dims_replicate: "dims (replicate r (fresh_ints c)) r c"
  by (simp add: dims_def fresh_ints_def)

lemma init_col_fold:
  assumes "dims dp r c" "0 < c" "m \<le> r"
  shows "dims (fold (\<lambda>i dp. dp[i := (dp ! i)[0 := int i]]) [0..<m] dp) r c \<and>
         (\<forall>i < m. fold (\<lambda>i dp. dp[i := (dp ! i)[0 := int i]]) [0..<m] dp ! i ! 0 = int i)"
  using assms(3)
proof (induction m)
  case 0
  show ?case using assms(1) by simp
next
  case (Suc m)
  let ?d = "fold (\<lambda>i dp. dp[i := (dp ! i)[0 := int i]]) [0..<m] dp"
  from Suc have ih: "dims ?d r c" "\<forall>i < m. ?d ! i ! 0 = int i" by simp_all
  have m: "m < r" using Suc.prems by simp
  show ?case
    using ih(2) by (auto simp: dims_update[OF ih(1)] nth_mat_update[OF ih(1) m assms(2)] less_Suc_eq)
qed

lemma init_row_fold_dp:
  assumes "dims dp r c" "0 < r" "m \<le> c"
  shows "dims (fold (\<lambda>j dp. dp[0 := (dp ! 0)[j := int j]]) [0..<m] dp) r c \<and>
         (\<forall>j < m. fold (\<lambda>j dp. dp[0 := (dp ! 0)[j := int j]]) [0..<m] dp ! 0 ! j = int j) \<and>
         (\<forall>i. 0 < i \<longrightarrow> fold (\<lambda>j dp. dp[0 := (dp ! 0)[j := int j]]) [0..<m] dp ! i ! 0 = dp ! i ! 0)"
  using assms(3)
proof (induction m)
  case 0
  show ?case using assms(1) by simp
next
  case (Suc m)
  let ?d = "fold (\<lambda>j dp. dp[0 := (dp ! 0)[j := int j]]) [0..<m] dp"
  from Suc have ih: "dims ?d r c" "\<forall>j < m. ?d ! 0 ! j = int j"
    "\<forall>i. 0 < i \<longrightarrow> ?d ! i ! 0 = dp ! i ! 0" by simp_all
  have m: "m < c" using Suc.prems by simp
  show ?case
    using ih(2,3)
    by (auto simp: dims_update[OF ih(1)] nth_mat_update[OF ih(1) assms(2) m] less_Suc_eq)
qed

lemma init_dp_correct:
  assumes "dims dp (len1 + 1) (len2 + 1)"
  shows "dims (init_dp len1 len2 dp) (len1 + 1) (len2 + 1)"
    and "\<forall>i \<le> len1. init_dp len1 len2 dp ! i ! 0 = int i"
    and "\<forall>j \<le> len2. init_dp len1 len2 dp ! 0 ! j = int j"
proof -
  let ?d1 = "fold (\<lambda>i dp. dp[i := (dp ! i)[0 := int i]]) [0..<len1 + 1] dp"
  from init_col_fold[OF assms, of "len1 + 1"]
  have d1: "dims ?d1 (len1 + 1) (len2 + 1)" "\<forall>i < len1 + 1. ?d1 ! i ! 0 = int i" by simp_all
  from init_row_fold_dp[OF d1(1), of "len2 + 1"]
  have d2: "dims (init_dp len1 len2 dp) (len1 + 1) (len2 + 1)"
    "\<forall>j < len2 + 1. init_dp len1 len2 dp ! 0 ! j = int j"
    "\<forall>i. 0 < i \<longrightarrow> init_dp len1 len2 dp ! i ! 0 = ?d1 ! i ! 0"
    unfolding init_dp_def by simp_all
  show "dims (init_dp len1 len2 dp) (len1 + 1) (len2 + 1)" by (rule d2(1))
  show "\<forall>j \<le> len2. init_dp len1 len2 dp ! 0 ! j = int j" using d2(2) by simp
  show "\<forall>i \<le> len1. init_dp len1 len2 dp ! i ! 0 = int i"
  proof (intro allI impI)
    fix i assume "i \<le> len1"
    then show "init_dp len1 len2 dp ! i ! 0 = int i"
      using d1(2) d2(2,3) by (cases "i = 0") simp_all
  qed
qed


lemma dp_cell_eq:
  "dp_cell a b i j dp =
     dp[i := (dp ! i)[j := (if c_nth a (i - 1) = c_nth b (j - 1) then dp ! (i - 1) ! (j - 1)
                            else min3 (dp ! (i - 1) ! (j - 1) + 1) (dp ! i ! (j - 1) + 1)
                                   (dp ! (i - 1) ! j + 1))]]"
  by (simp add: dp_cell_def Let_def)

lemma dp_cell_step:
  assumes f: "filled a b len1 len2 k d" and k: "k < len1" and m: "m < len2"
    and row: "\<forall>j \<le> m. d ! Suc k ! j = lev a b (Suc k) j"
  shows "filled a b len1 len2 k (dp_cell a b (Suc k) (Suc m) d) \<and>
         (\<forall>j \<le> Suc m. dp_cell a b (Suc k) (Suc m) d ! Suc k ! j = lev a b (Suc k) j)"
proof -
  from f have d: "dims d (len1 + 1) (len2 + 1)" by (simp add: filled_def)
  have i: "Suc k < len1 + 1" using k by simp
  have j: "Suc m < len2 + 1" using m by simp
  have km: "d ! k ! m = lev a b k m" "d ! k ! Suc m = lev a b k (Suc m)"
    using f m by (simp_all add: filled_def)
  have sm: "d ! Suc k ! m = lev a b (Suc k) m" using row by simp
  define v where "v = (if c_nth a (Suc k - 1) = c_nth b (Suc m - 1) then d ! (Suc k - 1) ! (Suc m - 1)
             else min3 (d ! (Suc k - 1) ! (Suc m - 1) + 1) (d ! Suc k ! (Suc m - 1) + 1)
                    (d ! (Suc k - 1) ! Suc m + 1))"
  have v: "v = lev a b (Suc k) (Suc m)"
    unfolding v_def using km sm by simp
  have eq: "dp_cell a b (Suc k) (Suc m) d = d[Suc k := (d ! Suc k)[Suc m := v]]"
    unfolding v_def by (rule dp_cell_eq)
  have nth: "\<And>i' j'. d[Suc k := (d ! Suc k)[Suc m := v]] ! i' ! j' =
                 (if i' = Suc k \<and> j' = Suc m then v else d ! i' ! j')"
    by (rule nth_mat_update[OF d i j])
  have "filled a b len1 len2 k (d[Suc k := (d ! Suc k)[Suc m := v]])"
    using f dims_update[OF d, of "Suc k" "Suc m" v] unfolding filled_def nth by auto
  moreover have "\<forall>j \<le> Suc m. d[Suc k := (d ! Suc k)[Suc m := v]] ! Suc k ! j = lev a b (Suc k) j"
    unfolding nth using row v by (auto simp: le_Suc_eq)
  ultimately show ?thesis unfolding eq by blast
qed

lemma fill_dp_inner:
  assumes f: "filled a b len1 len2 k dp" and k: "k < len1" and m: "m \<le> len2"
  shows "filled a b len1 len2 k (fold (dp_cell a b (Suc k)) [1..<m + 1] dp) \<and>
         (\<forall>j \<le> m. fold (dp_cell a b (Suc k)) [1..<m + 1] dp ! Suc k ! j = lev a b (Suc k) j)"
  using m
proof (induction m)
  case 0
  show ?case using f k by (simp add: filled_def)
next
  case (Suc m)
  define d where "d = fold (dp_cell a b (Suc k)) [1..<m + 1] dp"
  from Suc have ih: "filled a b len1 len2 k d" "\<forall>j \<le> m. d ! Suc k ! j = lev a b (Suc k) j"
    by (simp_all add: d_def)
  have step: "fold (dp_cell a b (Suc k)) [1..<Suc m + 1] dp = dp_cell a b (Suc k) (Suc m) d"
    by (simp add: d_def)
  have "m < len2" using Suc.prems by simp
  from dp_cell_step[OF ih(1) k this ih(2)] show ?case unfolding step .
qed

lemma fill_dp_outer:
  assumes f: "filled a b len1 len2 0 dp" and k: "k \<le> len1"
  shows "filled a b len1 len2 k
           (fold (\<lambda>i dp. fold (dp_cell a b i) [1..<len2 + 1] dp) [1..<k + 1] dp)"
  using k
proof (induction k)
  case 0
  show ?case using f by simp
next
  case (Suc k)
  define d where "d = fold (\<lambda>i dp. fold (dp_cell a b i) [1..<len2 + 1] dp) [1..<k + 1] dp"
  from Suc have ih: "filled a b len1 len2 k d" by (simp add: d_def)
  have k: "k < len1" using Suc.prems by simp
  define d' where "d' = fold (dp_cell a b (Suc k)) [1..<len2 + 1] d"
  from fill_dp_inner[OF ih k, of len2]
  have r: "filled a b len1 len2 k d'" "\<forall>j \<le> len2. d' ! Suc k ! j = lev a b (Suc k) j"
    by (simp_all add: d'_def)
  have step: "fold (\<lambda>i dp. fold (dp_cell a b i) [1..<len2 + 1] dp) [1..<Suc k + 1] dp = d'"
    by (simp add: d_def d'_def)
  show ?case unfolding step using r
    by (auto simp: filled_def le_Suc_eq)
qed

lemma fill_dp_correct:
  assumes "no_failure h"
  obtains dp0 h' where "alloc_rows (length a + 1) (length b + 1) h = (Some dp0, h')"
    "no_failure h'"
    "filled a b (length a) (length b) (length a)
       (fill_dp a b (length a) (length b) (init_dp (length a) (length b) dp0))"
proof -
  from alloc_rows_ok[OF assms, of "length a + 1" "length b + 1"] obtain h' where
    h': "alloc_rows (length a + 1) (length b + 1) h =
           (Some (replicate (length a + 1) (fresh_ints (length b + 1))), h')" "no_failure h'"
    by blast
  let ?dp0 = "replicate (length a + 1) (fresh_ints (length b + 1))"
  note i = init_dp_correct[OF dims_replicate[of "length a + 1" "length b + 1"]]
  have "filled a b (length a) (length b) 0 (init_dp (length a) (length b) ?dp0)"
    using i by (simp add: filled_def)
  from fill_dp_outer[OF this, of "length a"]
  have "filled a b (length a) (length b) (length a)
       (fill_dp a b (length a) (length b) (init_dp (length a) (length b) ?dp0))"
    by (simp add: fill_dp_def)
  with h' that show ?thesis by blast
qed


lemma reverse_fold:
  assumes "k \<le> length ops" "m \<le> k div 2"
  shows "length (fold (\<lambda>k' ops. let temp = ops ! k'
                    in (ops[k' := ops ! (k - 1 - k')])[k - 1 - k' := temp]) [0..<m] ops) = length ops \<and>
         (\<forall>idx < length ops.
            fold (\<lambda>k' ops. let temp = ops ! k'
                    in (ops[k' := ops ! (k - 1 - k')])[k - 1 - k' := temp]) [0..<m] ops ! idx =
            (if idx < m \<or> (k - m \<le> idx \<and> idx < k) then ops ! (k - 1 - idx) else ops ! idx))"
  using assms(2)
proof (induction m)
  case 0
  show ?case by auto
next
  case (Suc m)
  define r where "r = fold (\<lambda>k' ops. let temp = ops ! k'
                    in (ops[k' := ops ! (k - 1 - k')])[k - 1 - k' := temp]) [0..<m] ops"
  from Suc have ih: "length r = length ops"
    "\<forall>idx < length ops. r ! idx =
       (if idx < m \<or> (k - m \<le> idx \<and> idx < k) then ops ! (k - 1 - idx) else ops ! idx)"
    by (simp_all add: r_def)
  have step: "fold (\<lambda>k' ops. let temp = ops ! k'
                    in (ops[k' := ops ! (k - 1 - k')])[k - 1 - k' := temp]) [0..<Suc m] ops =
              (r[m := r ! (k - 1 - m)])[k - 1 - m := r ! m]"
    by (simp add: r_def Let_def)
  have b: "m < k - 1 - m" "k - 1 - m < k" using Suc.prems by linarith+
  with assms(1) have l: "m < length ops" "k - 1 - m < length ops" by linarith+
  have rm: "r ! m = ops ! m"
  proof -
    from ih(2) l(1) have "r ! m =
       (if m < m \<or> (k - m \<le> m \<and> m < k) then ops ! (k - 1 - m) else ops ! m)"
      by blast
    moreover have "\<not> (m < m \<or> (k - m \<le> m \<and> m < k))" using b by linarith
    ultimately show ?thesis by (simp only: if_False)
  qed
  have rk: "r ! (k - 1 - m) = ops ! (k - 1 - m)"
  proof -
    from ih(2) l(2) have "r ! (k - 1 - m) =
       (if k - 1 - m < m \<or> (k - m \<le> k - 1 - m \<and> k - 1 - m < k)
        then ops ! (k - 1 - (k - 1 - m)) else ops ! (k - 1 - m))"
      by blast
    moreover have "\<not> (k - 1 - m < m \<or> (k - m \<le> k - 1 - m \<and> k - 1 - m < k))"
      using b by linarith
    ultimately show ?thesis by (simp only: if_False)
  qed
  show ?case unfolding step
  proof (intro conjI allI impI)
    show "length ((r[m := r ! (k - 1 - m)])[k - 1 - m := r ! m]) = length ops"
      using ih(1) by simp
  next
    fix idx assume idx: "idx < length ops"
    consider "idx = m" | "idx = k - 1 - m" | "idx \<noteq> m" "idx \<noteq> k - 1 - m" by blast
    then show "(r[m := r ! (k - 1 - m)])[k - 1 - m := r ! m] ! idx =
          (if idx < Suc m \<or> (k - Suc m \<le> idx \<and> idx < k) then ops ! (k - 1 - idx) else ops ! idx)"
    proof cases
      case 1
      have "(r[m := r ! (k - 1 - m)])[k - 1 - m := r ! m] ! m = ops ! (k - 1 - m)"
        using b l ih(1) rk by simp
      with 1 show ?thesis by simp
    next
      case 2
      have e: "k - 1 - (k - 1 - m) = m" using b by linarith
      have c: "k - Suc m \<le> k - 1 - m \<and> k - 1 - m < k" using b by linarith
      have "(r[m := r ! (k - 1 - m)])[k - 1 - m := r ! m] ! (k - 1 - m) = ops ! m"
        using b l ih(1) rm by simp
      with 2 e c show ?thesis by simp
    next
      case 3
      have "(idx < Suc m \<or> (k - Suc m \<le> idx \<and> idx < k)) = (idx < m \<or> (k - m \<le> idx \<and> idx < k))"
        using 3 b by linarith
      with 3 ih idx show ?thesis by simp
    qed
  qed
qed

lemma reverse_operations_correct:
  assumes "k \<le> length ops"
  shows "take k (reverse_operations k ops) = rev (take k ops)"
proof (rule nth_equalityI)
  from reverse_fold[OF assms, of "k div 2"]
  have r: "length (reverse_operations k ops) = length ops"
    "\<forall>idx < length ops. reverse_operations k ops ! idx =
       (if idx < k div 2 \<or> (k - k div 2 \<le> idx \<and> idx < k) then ops ! (k - 1 - idx) else ops ! idx)"
    by (simp_all add: reverse_operations_def)
  show len: "length (take k (reverse_operations k ops)) = length (rev (take k ops))"
    using r(1) assms by simp
  fix i assume "i < length (take k (reverse_operations k ops))"
  then have i: "i < k" by simp
  with assms have il: "i < length ops" by simp
  have "reverse_operations k ops ! i = ops ! (k - 1 - i)"
  proof (cases "i < k div 2 \<or> (k - k div 2 \<le> i \<and> i < k)")
    case True
    with r(2) il show ?thesis by simp
  next
    case False
    with i have "i = k - 1 - i" by linarith
    with False r(2) il show ?thesis by simp
  qed
  moreover have "rev (take k ops) ! i = ops ! (k - 1 - i)"
    using i assms by (simp add: rev_nth)
  ultimately show "take k (reverse_operations k ops) ! i = rev (take k ops) ! i"
    using i by simp
qed


lemma min3_cases: "min3 x y z = x \<or> min3 x y z = y \<or> min3 x y z = z"
  by (simp add: min3_def Let_def)

text \<open>What one more discovered operation adds to the facts about the operations found after it.\<close>

lemma backtrack_step:
  assumes len: "length ops' = length ops" "op_count < length ops" "Suc op_count \<le> k" "k \<le> length ops"
    and pre: "take (Suc op_count) ops' = take (Suc op_count) (ops[op_count := op])"
    and run: "fold (apply_operation a) (rev (drop (Suc op_count) (take k ops'))) (Some (0, [])) =
              Some (i', take j' b)"
    and cost: "int (edit_cost (drop (Suc op_count) (take k ops'))) = lev a b i' j'"
    and opr: "apply_operation a op (Some (i', take j' b)) = Some (i, take j b)"
    and opc: "lev a b i j = lev a b i' j' + (if type op = EDIT_MATCH then 0 else 1)"
  shows "take op_count ops' = take op_count ops"
    and "fold (apply_operation a) (rev (drop op_count (take k ops'))) (Some (0, [])) =
         Some (i, take j b)"
    and "int (edit_cost (drop op_count (take k ops'))) = lev a b i j"
proof -
  from pre have "take (Suc op_count) ops' ! op_count = take (Suc op_count) (ops[op_count := op]) ! op_count"
    by simp
  then have at: "ops' ! op_count = op" using len(2) by simp
  from pre have "take op_count (take (Suc op_count) ops') =
                 take op_count (take (Suc op_count) (ops[op_count := op]))"
    by simp
  then show "take op_count ops' = take op_count ops" by (simp add: min_def)
  have "op_count < length (take k ops')" using len by simp
  then have "drop op_count (take k ops') =
             take k ops' ! op_count # drop (Suc op_count) (take k ops')"
    by (rule Cons_nth_drop_Suc[symmetric])
  moreover have "take k ops' ! op_count = op" using at len(3) by simp
  ultimately have seg: "drop op_count (take k ops') = op # drop (Suc op_count) (take k ops')"
    by simp
  show "fold (apply_operation a) (rev (drop op_count (take k ops'))) (Some (0, [])) =
         Some (i, take j b)"
    unfolding seg using run opr by simp
  show "int (edit_cost (drop op_count (take k ops'))) = lev a b i j"
    unfolding seg using cost opc by (simp add: edit_cost_def)
qed

lemma backtrack_correct:
  assumes tab: "filled a b (length a) (length b) (length a) dp"
  shows "i \<le> length a \<Longrightarrow> j \<le> length b \<Longrightarrow> op_count + i + j \<le> length ops \<Longrightarrow>
     \<exists>k ops'. backtrack a b dp i j op_count ops = Some (k, ops') \<and>
       op_count \<le> k \<and> k \<le> op_count + i + j \<and> length ops' = length ops \<and>
       take op_count ops' = take op_count ops \<and>
       fold (apply_operation a) (rev (drop op_count (take k ops'))) (Some (0, [])) =
         Some (i, take j b) \<and>
       int (edit_cost (drop op_count (take k ops'))) = lev a b i j"
proof (induction "i + j" arbitrary: i j op_count ops rule: less_induct)
  case less
  note i = less.prems(1) and j = less.prems(2) and room = less.prems(3)
  have cell: "\<And>i' j'. i' \<le> length a \<Longrightarrow> j' \<le> length b \<Longrightarrow> dp ! i' ! j' = lev a b i' j'"
    using tab by (simp add: filled_def)
  show ?case
  proof (cases "i = 0 \<and> j = 0")
    case True
    then have "backtrack a b dp i j op_count ops = Some (op_count, ops)"
      by (subst backtrack.simps) simp
    with True show ?thesis by (simp add: edit_cost_def)
  next
    case False
    text \<open>The branch taken, as the next state and the operation written.\<close>
    define is_match where "is_match \<longleftrightarrow> i > 0 \<and> j > 0 \<and> c_nth a (i - 1) = c_nth b (j - 1)"
    define is_subst where "is_subst \<longleftrightarrow> i > 0 \<and> j > 0 \<and> dp ! i ! j = dp ! (i - 1) ! (j - 1) + 1"
    define is_ins where "is_ins \<longleftrightarrow> j > 0 \<and> dp ! i ! j = dp ! i ! (j - 1) + 1"
    define is_del where "is_del \<longleftrightarrow> i > 0 \<and> dp ! i ! j = dp ! (i - 1) ! j + 1"
    have some: "is_match \<or> is_subst \<or> is_ins \<or> is_del"
    proof (cases i)
      case 0
      with False obtain j' where "j = Suc j'" by (cases j) auto
      with 0 cell[of 0 j] cell[of 0 j'] j show ?thesis by (simp add: is_ins_def)
    next
      case (Suc i')
      show ?thesis
      proof (cases j)
        case 0
        with Suc cell[of i 0] cell[of i' 0] i show ?thesis by (simp add: is_del_def lev_col0)
      next
        case (Suc j')
        with \<open>i = Suc i'\<close> cell[of i j] cell[of i' j'] cell[of i j'] cell[of i' j] i j
          min3_cases[of "lev a b i' j' + 1" "lev a b (Suc i') j' + 1" "lev a b i' (Suc j') + 1"]
        show ?thesis
          by (auto simp: is_match_def is_subst_def is_ins_def is_del_def)
      qed
    qed
    define i' where "i' = (if is_match \<or> is_subst then i - 1 else if is_ins then i else i - 1)"
    define j' where "j' = (if is_match \<or> is_subst then j - 1 else if is_ins then j - 1 else j)"
    define op where "op =
      (if is_match then \<lparr>type = EDIT_MATCH, from_char = c_nth a (i - 1),
                              to_char = c_nth b (j - 1), EditOperation.position = int i - 1\<rparr>
       else if is_subst then \<lparr>type = EDIT_SUBSTITUTE, from_char = c_nth a (i - 1),
                              to_char = c_nth b (j - 1), EditOperation.position = int i - 1\<rparr>
       else if is_ins then \<lparr>type = EDIT_INSERT, from_char = CHR 0x00,
                              to_char = c_nth b (j - 1), EditOperation.position = int i\<rparr>
       else \<lparr>type = EDIT_DELETE, from_char = c_nth a (i - 1),
                              to_char = CHR 0x00, EditOperation.position = int i - 1\<rparr>)"
    have unfold: "backtrack a b dp i j op_count ops =
                  backtrack a b dp i' j' (Suc op_count) (ops[op_count := op])"
      using False some
      by (subst backtrack.simps)
         (auto simp: is_match_def is_subst_def is_ins_def is_del_def i'_def j'_def op_def)
    have smaller: "i' + j' < i + j" "i' \<le> length a" "j' \<le> length b"
      "Suc op_count + i' + j' \<le> length ops" "i' + j' + 1 \<le> i + j"
      using some i j room
      by (auto simp: is_match_def is_subst_def is_ins_def is_del_def i'_def j'_def)
    from less.hyps[OF smaller(1-3), of "Suc op_count" "ops[op_count := op]"] smaller(4)
    obtain k ops' where r: "backtrack a b dp i' j' (Suc op_count) (ops[op_count := op]) = Some (k, ops')"
      "Suc op_count \<le> k" "k \<le> Suc op_count + i' + j'" "length ops' = length ops"
      "take (Suc op_count) ops' = take (Suc op_count) (ops[op_count := op])"
      "fold (apply_operation a) (rev (drop (Suc op_count) (take k ops'))) (Some (0, [])) =
         Some (i', take j' b)"
      "int (edit_cost (drop (Suc op_count) (take k ops'))) = lev a b i' j'"
      by auto
    have src: "\<And>i0. i = Suc i0 \<Longrightarrow> i0 < length a \<and> c_nth a i0 = a ! i0"
      using i by (auto simp: c_nth_def)
    have tgt: "\<And>j0. j = Suc j0 \<Longrightarrow> c_nth b j0 = b ! j0 \<and> take j0 b @ [b ! j0] = take (Suc j0) b"
      using j by (auto simp: c_nth_def take_Suc_conv_app_nth)
    consider (m) is_match | (s) "\<not> is_match" is_subst | (n) "\<not> is_match" "\<not> is_subst" is_ins
      | (d) "\<not> is_match" "\<not> is_subst" "\<not> is_ins" is_del
      using some by blast
    then have "apply_operation a op (Some (i', take j' b)) = Some (i, take j b) \<and>
               lev a b i j = lev a b i' j' + (if type op = EDIT_MATCH then 0 else 1)"
    proof cases
      case m
      then obtain i0 j0 where ij: "i = Suc i0" "j = Suc j0"
        by (cases i; cases j) (auto simp: is_match_def)
      with m have p: "c_nth a i0 = c_nth b j0" by (simp add: is_match_def)
      have v: "i' = i0" "j' = j0" "op = \<lparr>type = EDIT_MATCH, from_char = c_nth a i0,
                              to_char = c_nth b j0, EditOperation.position = int i0\<rparr>"
        using m ij by (simp_all add: i'_def j'_def op_def)
      have l: "lev a b (Suc i0) (Suc j0) = lev a b i0 j0"
        using p by simp
      from src[OF ij(1)] tgt[OF ij(2)] p
      have "apply_operation a \<lparr>type = EDIT_MATCH, from_char = c_nth a i0,
                              to_char = c_nth b j0, EditOperation.position = int i0\<rparr> (Some (i0, take j0 b)) =
            Some (Suc i0, take (Suc j0) b)"
        by (simp add: apply_operation_def)
      with l show ?thesis unfolding v ij by simp
    next
      case s
      then obtain i0 j0 where ij: "i = Suc i0" "j = Suc j0"
        by (cases i; cases j) (auto simp: is_subst_def)
      with s have p: "dp ! Suc i0 ! Suc j0 = dp ! i0 ! j0 + 1" by (simp add: is_subst_def)
      have v: "i' = i0" "j' = j0" "op = \<lparr>type = EDIT_SUBSTITUTE, from_char = c_nth a i0,
                              to_char = c_nth b j0, EditOperation.position = int i0\<rparr>"
        using s ij by (simp_all add: i'_def j'_def op_def)
      have l: "lev a b (Suc i0) (Suc j0) = lev a b i0 j0 + 1"
        using p cell[of "Suc i0" "Suc j0"] cell[of i0 j0] i j ij by simp
      from src[OF ij(1)] tgt[OF ij(2)]
      have "apply_operation a \<lparr>type = EDIT_SUBSTITUTE, from_char = c_nth a i0,
                              to_char = c_nth b j0, EditOperation.position = int i0\<rparr> (Some (i0, take j0 b)) =
            Some (Suc i0, take (Suc j0) b)"
        by (simp add: apply_operation_def)
      with l show ?thesis unfolding v ij by simp
    next
      case n
      then obtain j0 where ij: "j = Suc j0"
        by (cases j) (auto simp: is_ins_def)
      with n have p: "dp ! i ! Suc j0 = dp ! i ! j0 + 1" by (simp add: is_ins_def)
      have v: "i' = i" "j' = j0" "op = \<lparr>type = EDIT_INSERT, from_char = CHR 0x00,
                              to_char = c_nth b j0, EditOperation.position = int i\<rparr>"
        using n ij by (simp_all add: i'_def j'_def op_def)
      have l: "lev a b i (Suc j0) = lev a b i j0 + 1"
        using p cell[of i "Suc j0"] cell[of i j0] i j ij by simp
      from tgt[OF ij]
      have "apply_operation a \<lparr>type = EDIT_INSERT, from_char = CHR 0x00,
                              to_char = c_nth b j0, EditOperation.position = int i\<rparr> (Some (i, take j0 b)) =
            Some (i, take (Suc j0) b)"
        by (simp add: apply_operation_def)
      with l show ?thesis unfolding v ij by simp
    next
      case d
      then obtain i0 where ij: "i = Suc i0"
        by (cases i) (auto simp: is_del_def)
      with d have p: "dp ! Suc i0 ! j = dp ! i0 ! j + 1" by (simp add: is_del_def)
      have v: "i' = i0" "j' = j" "op = \<lparr>type = EDIT_DELETE, from_char = c_nth a i0,
                              to_char = CHR 0x00, EditOperation.position = int i0\<rparr>"
        using d ij by (simp_all add: i'_def j'_def op_def)
      have l: "lev a b (Suc i0) j = lev a b i0 j + 1"
        using p cell[of "Suc i0" j] cell[of i0 j] i j ij by simp
      from src[OF ij]
      have "apply_operation a \<lparr>type = EDIT_DELETE, from_char = c_nth a i0,
                              to_char = CHR 0x00, EditOperation.position = int i0\<rparr> (Some (i0, take j b)) =
            Some (Suc i0, take j b)"
        by (simp add: apply_operation_def)
      with l show ?thesis unfolding v ij by simp
    qed
    then have opr: "apply_operation a op (Some (i', take j' b)) = Some (i, take j b)"
      and opc: "lev a b i j = lev a b i' j' + (if type op = EDIT_MATCH then 0 else 1)"
      by simp_all
    have len: "op_count < length ops" "k \<le> length ops"
      using room False r(3) smaller(5) by linarith+
    note st = backtrack_step[OF r(4) len(1) r(2) len(2) r(5) r(6) r(7) opr opc]
    have "op_count \<le> k" "k \<le> op_count + i + j" using r(2,3) smaller(5) by linarith+
    with unfold r(1,4) st show ?thesis by simp
  qed
qed


lemma edit_cost_rev: "edit_cost (rev ops) = edit_cost ops"
  by (simp add: edit_cost_def rev_filter[symmetric])

text \<open>
  C1. For every pair of strings, when no allocation fails, \<open>compute_edit_operations\<close>
  returns a result; applying its operation sequence to the source string, in order,
  yields exactly the target string, and the number of its operations that are not matches
  equals the value of \<open>compute_edit_distance\<close> on the two strings.
\<close>

theorem edit_script_transforms_source:
  assumes "no_failure h" "no_failure h'"
  shows "\<exists>r. compute_edit_operations h (Some a) (Some b) = Some (Some r) \<and>
             apply_operations (op_sequence r) a = Some b \<and>
             int (edit_cost (op_sequence r)) = compute_edit_distance h' (Some a) (Some b)"
proof -
  from assms(1) obtain h1 where h1: "malloc h = (True, h1)" "no_failure h1"
    by (rule malloc_no_failure)
  from h1(2) obtain h2 where h2: "malloc h1 = (True, h2)" "no_failure h2"
    by (rule malloc_no_failure)
  from h2(2) obtain dp0 h3 where
    h3: "alloc_rows (length a + 1) (length b + 1) h2 = (Some dp0, h3)" "no_failure h3"
    and tab: "filled a b (length a) (length b) (length a)
       (fill_dp a b (length a) (length b) (init_dp (length a) (length b) dp0))"
    by (rule fill_dp_correct)
  from h3(2) obtain h4 where h4: "malloc h3 = (True, h4)" "no_failure h4"
    by (rule malloc_no_failure)
  define dp where "dp = fill_dp a b (length a) (length b) (init_dp (length a) (length b) dp0)"
  define ops0 where "ops0 = replicate (length a + length b) fresh_op"
  from backtrack_correct[OF tab, of "length a" "length b" 0 ops0]
  obtain k ops' where
    bt: "backtrack a b dp (length a) (length b) 0 ops0 = Some (k, ops')"
      "k \<le> length a + length b" "length ops' = length ops0"
      "fold (apply_operation a) (rev (take k ops')) (Some (0, [])) = Some (length a, b)"
      "int (edit_cost (take k ops')) = lev a b (length a) (length b)"
    by (auto simp: dp_def ops0_def)
  define r where "r = \<lparr>distance = dp ! length a ! length b,
                        operations = reverse_operations k ops',
                        operation_count = int k\<rparr>"
  have res: "compute_edit_operations h (Some a) (Some b) = Some (Some r)"
    using h1(1) h2(1) h3(1) h4(1) bt(1)
    by (simp add: compute_edit_operations_def Let_def dp_def ops0_def r_def)
  have "k \<le> length ops'" using bt(2,3) by (simp add: ops0_def)
  then have seq: "op_sequence r = rev (take k ops')"
    by (simp add: op_sequence_def r_def reverse_operations_correct)
  have app: "apply_operations (op_sequence r) a = Some b"
    unfolding seq using bt(4) by (simp add: apply_operations_def)
  have cost: "int (edit_cost (op_sequence r)) = compute_edit_distance h' (Some a) (Some b)"
    unfolding seq using bt(5) compute_edit_distance_lev[OF assms(2), of a b]
    by (simp add: edit_cost_rev)
  from res app cost show ?thesis by blast
qed

theorem edit_script_transforms_source_witness:
  "no_failure [True, True] \<and>
   compute_edit_distance [True, True] (Some ''cat'') (Some ''bat'') = 1 \<and>
   (\<exists>r. compute_edit_operations [] (Some ''cat'') (Some ''bat'') = Some (Some r) \<and>
        apply_operations (op_sequence r) ''cat'' = Some ''bat'' \<and>
        int (edit_cost (op_sequence r)) = 1)"
proof -
  have n1: "no_failure []" and n2: "no_failure [True, True]"
    by (simp_all add: no_failure_def)
  have d: "compute_edit_distance [True, True] (Some ''cat'') (Some ''bat'') = 1"
    by code_simp
  from edit_script_transforms_source[OF n1 n2, of "''cat''" "''bat''"]
  have "\<exists>r. compute_edit_operations [] (Some ''cat'') (Some ''bat'') = Some (Some r) \<and>
        apply_operations (op_sequence r) ''cat'' = Some ''bat'' \<and>
        int (edit_cost (op_sequence r)) = 1"
    unfolding d .
  with n2 d show ?thesis by blast
qed

theorem distance_row_agrees_witness:
  "no_failure [] \<and> (3::int) = int (length ''bat'') \<and>
   get_distance_row [] (Some ''cat'') (Some ''bat'') 3 = Some [3, 3, 2, 1] \<and>
   [3, 3, 2, 1] ! length ''bat'' = compute_edit_distance [] (Some ''cat'') (Some ''bat'')"
proof -
  have n: "no_failure []"
    by (simp add: no_failure_def)
  have l: "(3::int) = int (length ''bat'')"
    by simp
  have g: "get_distance_row [] (Some ''cat'') (Some ''bat'') 3 = Some [3, 3, 2, 1]"
    by code_simp
  from distance_row_agrees[OF n n l, of "''cat''"]
  have "[3, 3, 2, 1] ! length ''bat'' = compute_edit_distance [] (Some ''cat'') (Some ''bat'')"
    unfolding g by blast
  with n l g show ?thesis by blast
qed

subsection \<open>The enumeration and the suggestion ranker\<close>

text \<open>The bubble sort leaves the candidates in ascending order of distance and keeps them all.\<close>

lemma bubble_pass_Suc: "bubble_pass (Suc m) c = bubble_step m (bubble_pass m c)"
  by (simp add: bubble_pass_def bubble_step_def)

lemma bubble_pass_0: "bubble_pass 0 c = c"
  by (simp add: bubble_pass_def)

lemma bubble_step_props:
  assumes "Suc j < length c"
  shows "length (bubble_step j c) = length c"
    and "mset (bubble_step j c) = mset c"
    and "\<And>k. k \<noteq> j \<Longrightarrow> k \<noteq> Suc j \<Longrightarrow> bubble_step j c ! k = c ! k"
    and "snd (bubble_step j c ! j) \<le> snd (bubble_step j c ! Suc j)"
    and "snd (c ! j) \<le> snd (bubble_step j c ! Suc j)"
    and "bubble_step j c ! j = c ! j \<or> bubble_step j c ! j = c ! Suc j"
    and "bubble_step j c ! Suc j = c ! j \<or> bubble_step j c ! Suc j = c ! Suc j"
  using assms by (auto simp: bubble_step_def Let_def mset_swap)

text \<open>After the inner loop has handled the indices below m: position m holds a largest
  element of the first m + 1, later cells are untouched, and the first m + 1 cells hold
  elements that were among the first m + 1 before.\<close>

lemma bubble_pass_inv:
  assumes "m < length c"
  shows "length (bubble_pass m c) = length c \<and>
         mset (bubble_pass m c) = mset c \<and>
         (\<forall>k. m < k \<longrightarrow> bubble_pass m c ! k = c ! k) \<and>
         (\<forall>k \<le> m. snd (bubble_pass m c ! k) \<le> snd (bubble_pass m c ! m)) \<and>
         (\<forall>k \<le> m. \<exists>k' \<le> m. bubble_pass m c ! k = c ! k')"
  using assms
proof (induction m)
  case 0
  show ?case by (simp add: bubble_pass_0)
next
  case (Suc m)
  define d where "d = bubble_pass m c"
  from Suc have ih: "length d = length c" "mset d = mset c"
    "\<forall>k. m < k \<longrightarrow> d ! k = c ! k"
    "\<forall>k \<le> m. snd (d ! k) \<le> snd (d ! m)"
    "\<forall>k \<le> m. \<exists>k' \<le> m. d ! k = c ! k'"
    by (simp_all add: d_def)
  have l: "Suc m < length d" using Suc.prems ih(1) by simp
  note st = bubble_step_props[OF l]
  have e: "bubble_pass (Suc m) c = bubble_step m d" by (simp add: bubble_pass_Suc d_def)
  show ?case unfolding e
  proof (intro conjI allI impI)
    show "length (bubble_step m d) = length c" using st(1) ih(1) by simp
    show "mset (bubble_step m d) = mset c" using st(2) ih(2) by simp
  next
    fix k assume "Suc m < k"
    then show "bubble_step m d ! k = c ! k" using st(3)[of k] ih(3) by simp
  next
    fix k assume k: "k \<le> Suc m"
    consider "k = Suc m" | "k = m" | "k < m" using k by linarith
    then show "snd (bubble_step m d ! k) \<le> snd (bubble_step m d ! Suc m)"
    proof cases
      case 1 then show ?thesis by simp
    next
      case 2 then show ?thesis using st(4) by simp
    next
      case 3
      then have "bubble_step m d ! k = d ! k" using st(3)[of k] by simp
      moreover have "snd (d ! k) \<le> snd (d ! m)" using ih(4) 3 by simp
      ultimately show ?thesis using st(5) by simp
    qed
  next
    fix k assume k: "k \<le> Suc m"
    have dm: "\<exists>k' \<le> Suc m. d ! m = c ! k'" using ih(5) by (meson le_Suc_eq order_refl)
    have ds: "\<exists>k' \<le> Suc m. d ! Suc m = c ! k'" using ih(3) by auto
    consider "k = Suc m" | "k = m" | "k < m" using k by linarith
    then show "\<exists>k' \<le> Suc m. bubble_step m d ! k = c ! k'"
    proof cases
      case 1 then show ?thesis using st(7) dm ds by auto
    next
      case 2 then show ?thesis using st(6) dm ds by auto
    next
      case 3
      then have "bubble_step m d ! k = d ! k" using st(3)[of k] by simp
      moreover have "\<exists>k' \<le> Suc m. d ! k = c ! k'" using ih(5) 3 by (meson le_Suc_eq less_imp_le)
      ultimately show ?thesis by simp
    qed
  qed
qed


lemma bubble_outer_inv:
  assumes "i \<le> length c0 - 1"
  defines "n \<equiv> length c0"
  defines "c \<equiv> fold (\<lambda>i c. bubble_pass (n - i - 1) c) [0..<i] c0"
  shows "length c = n \<and> mset c = mset c0 \<and>
         (\<forall>k l. n - i \<le> k \<and> k \<le> l \<and> l < n \<longrightarrow> snd (c ! k) \<le> snd (c ! l)) \<and>
         (\<forall>k l. k < n - i \<and> n - i \<le> l \<and> l < n \<longrightarrow> snd (c ! k) \<le> snd (c ! l))"
  using assms(1) unfolding c_def
proof (induction i)
  case 0
  show ?case by (auto simp: n_def)
next
  case (Suc i)
  define c where "c = fold (\<lambda>i c. bubble_pass (n - i - 1) c) [0..<i] c0"
  define B where "B = n - i - 1"
  define d where "d = bubble_pass B c"
  from Suc have ih: "length c = n" "mset c = mset c0"
    "\<forall>k l. n - i \<le> k \<and> k \<le> l \<and> l < n \<longrightarrow> snd (c ! k) \<le> snd (c ! l)"
    "\<forall>k l. k < n - i \<and> n - i \<le> l \<and> l < n \<longrightarrow> snd (c ! k) \<le> snd (c ! l)"
    by (simp_all add: c_def)
  have B: "B < length c" "n - Suc i = B" "n - i = Suc B"
    using Suc.prems ih(1) by (simp_all add: B_def n_def)
  from bubble_pass_inv[OF B(1)]
  have p: "length d = length c" "mset d = mset c"
    "\<forall>k. B < k \<longrightarrow> d ! k = c ! k"
    "\<forall>k \<le> B. snd (d ! k) \<le> snd (d ! B)"
    "\<forall>k \<le> B. \<exists>k' \<le> B. d ! k = c ! k'"
    by (simp_all add: d_def)
  have e: "fold (\<lambda>i c. bubble_pass (n - i - 1) c) [0..<Suc i] c0 = d"
    by (simp add: d_def c_def B_def)
  have low: "\<And>k l. k \<le> B \<Longrightarrow> B < l \<Longrightarrow> l < n \<Longrightarrow> snd (d ! k) \<le> snd (c ! l)"
  proof -
    fix k l assume kl: "k \<le> B" "B < l" "l < n"
    from p(5) kl(1) obtain k' where k': "k' \<le> B" "d ! k = c ! k'" by blast
    with ih(4) kl B(3) show "snd (d ! k) \<le> snd (c ! l)" by simp
  qed
  show ?case unfolding e B(2)
  proof (intro conjI allI impI)
    show "length d = n" using p(1) ih(1) by simp
    show "mset d = mset c0" using p(2) ih(2) by simp
  next
    fix k l assume a: "B \<le> k \<and> k \<le> l \<and> l < n"
    consider "k = l" | "k = B" "B < l" | "B < k" using a by linarith
    then show "snd (d ! k) \<le> snd (d ! l)"
    proof cases
      case 1 then show ?thesis by simp
    next
      case 2
      with a low[of B l] p(3) show ?thesis by simp
    next
      case 3
      with a p(3) ih(3) B(3) show ?thesis by simp
    qed
  next
    fix k l assume a: "k < B \<and> B \<le> l \<and> l < n"
    show "snd (d ! k) \<le> snd (d ! l)"
    proof (cases "l = B")
      case True
      with a p(4) show ?thesis by simp
    next
      case False
      with a low[of k l] p(3) show ?thesis by simp
    qed
  qed
qed

lemma bubble_sort_sorted:
  "sorted (map snd (bubble_sort cs)) \<and> mset (bubble_sort cs) = mset cs"
proof -
  define n where "n = length cs"
  define c where "c = bubble_sort cs"
  have "length c = n \<and> mset c = mset cs \<and>
    (\<forall>k l. n - (n - 1) \<le> k \<and> k \<le> l \<and> l < n \<longrightarrow> snd (c ! k) \<le> snd (c ! l)) \<and>
    (\<forall>k l. k < n - (n - 1) \<and> n - (n - 1) \<le> l \<and> l < n \<longrightarrow> snd (c ! k) \<le> snd (c ! l))"
    unfolding c_def n_def bubble_sort_def Let_def
    by (rule bubble_outer_inv[of "length cs - 1" cs, OF order_refl])
  then have r: "length c = n" "mset c = mset cs"
    "\<forall>k l. n - (n - 1) \<le> k \<and> k \<le> l \<and> l < n \<longrightarrow> snd (c ! k) \<le> snd (c ! l)"
    "\<forall>k l. k < n - (n - 1) \<and> n - (n - 1) \<le> l \<and> l < n \<longrightarrow> snd (c ! k) \<le> snd (c ! l)"
    by blast+
  have "\<And>k l. k \<le> l \<Longrightarrow> l < n \<Longrightarrow> snd (c ! k) \<le> snd (c ! l)"
  proof -
    fix k l assume kl: "k \<le> l" "l < n"
    then have one: "n - (n - 1) = 1" by linarith
    consider "k = l" | "k = 0" "0 < l" | "0 < k" by linarith
    then show "snd (c ! k) \<le> snd (c ! l)"
    proof cases
      case 1 then show ?thesis by simp
    next
      case 2 with r(4) kl one show ?thesis by simp
    next
      case 3 with r(3) kl one show ?thesis by simp
    qed
  qed
  then have "sorted (map snd c)"
    using r(1) by (simp add: sorted_iff_nth_mono)
  with r(2) show ?thesis by (simp add: c_def)
qed

lemma letter_props:
  assumes "i < 26"
  shows "islower (letter i)" "letter_index (letter i) = i" "tolower (letter i) = letter i"
proof -
  have v: "(of_char (letter i) :: nat) = 97 + i"
    using assms by (simp add: letter_def)
  show l: "islower (letter i)"
    using assms v by (simp add: islower_def less_eq_char_def)
  show "letter_index (letter i) = i"
    using v by (simp add: letter_index_def)
  show "tolower (letter i) = letter i"
    using islower_not_isupper[OF l] by (simp add: tolower_def)
qed

lemma letter_of_index: "islower c \<Longrightarrow> letter (letter_index c) = c"
  by (simp add: letter_def letter_index_def islower_def less_eq_char_def)

lemma islower_tolower: "islower c \<Longrightarrow> tolower c = c"
  using islower_not_isupper by (simp add: tolower_def)

lemma in_zip_children:
  assumes "length cs = 26"
  shows "(i, x) \<in> set (zip [0..<26] cs) \<longleftrightarrow> i < 26 \<and> cs ! i = x"
proof -
  have "zip [0..<26] cs = enumerate 0 cs"
    using assms by (simp add: enumerate_eq_zip)
  then show ?thesis
    using assms by (simp add: in_set_enumerate_eq)
qed

lemma stored_words_node:
  assumes "length cs = 26"
  shows "stored_words (TrieNode cs e wc) =
         (if e then {[]} else {}) \<union>
         (\<Union>(i, child) \<in> set (zip [0..<26] cs). (#) (letter i) ` stored_opt child)"
  (is "?L = ?R")
proof (intro set_eqI iffI)
  fix w assume "w \<in> ?L"
  then have lw: "\<forall>c \<in> set w. islower c" and sw: "search_loop w (TrieNode cs e wc)"
    by (simp_all add: stored_words_def)
  show "w \<in> ?R"
  proof (cases w)
    case Nil
    with sw show ?thesis by simp
  next
    case (Cons c w')
    with lw have c: "islower c" "tolower c = c" by (simp_all add: islower_tolower)
    from index_bound[OF c(1)] have i: "letter_index c < 26" .
    from sw Cons c obtain m where m: "cs ! letter_index c = Some m" "search_loop w' m"
      by (auto simp add: search_loop_Cons simp del: search_loop.simps(2) split: option.splits)
    have "(letter_index c, Some m) \<in> set (zip [0..<26] cs)"
      using i m(1) by (simp add: in_zip_children[OF assms])
    moreover have "w \<in> (#) (letter (letter_index c)) ` stored_opt (Some m)"
      using Cons lw m(2) c(1) by (simp add: letter_of_index stored_opt_def stored_words_def)
    ultimately show ?thesis by blast
  qed
next
  fix w assume "w \<in> ?R"
  then consider "e" "w = []"
    | i child where "(i, child) \<in> set (zip [0..<26] cs)" "w \<in> (#) (letter i) ` stored_opt child"
    by (auto split: if_splits)
  then show "w \<in> ?L"
  proof cases
    case 1
    then show ?thesis by (simp add: stored_words_def)
  next
    case 2
    from 2(1) have i: "i < 26" "cs ! i = child" by (simp_all add: in_zip_children[OF assms])
    from 2(2) obtain m w' where m: "child = Some m" "w = letter i # w'" "w' \<in> stored_words m"
      by (auto simp: stored_opt_def split: option.splits)
    with i letter_props[OF i(1)] show ?thesis
      by (simp add: stored_words_def search_loop_Cons del: search_loop.simps(2))
  qed
qed

text \<open>
  Every step of the traversal keeps \<open>collect_inv\<close>, whatever the allocator does: the
  cells of the output array never hold anything but NULL and words stored in the
  dictionary.
\<close>

lemma malloc_cases:
  obtains h' where "malloc h = (True, h')" | h' where "malloc h = (False, h')"
  by (cases "malloc h") (metis (full_types))

lemma realloc_words_cases:
  obtains h' where "realloc_words h words n = (None, h')"
  | ws h' where "realloc_words h words n = (Some ws, h')" "length ws = n"
      "set ws \<subseteq> insert None (case words of None \<Rightarrow> {} | Some old \<Rightarrow> set old)"
proof (cases rule: malloc_cases[of h])
  case (1 h')
  then show ?thesis
    by (intro that(2)[of _ h'])
       (auto simp: realloc_words_def split: option.splits dest: in_set_takeD)
next
  case (2 h')
  then show ?thesis
    by (intro that(1)[of h']) (simp add: realloc_words_def)
qed

lemma write_word_inv:
  assumes "collect_inv A st" and "prefix \<in> A" and "write_word prefix st = Inr (b, st')"
  shows "collect_inv A st' \<and> \<not> b"
proof -
  obtain words n capacity h where st: "st = (words, n, capacity, h)"
    by (cases st)
  from assms(3) st obtain ws where ws: "words = Some ws" "n < length ws"
    by (cases words) (auto split: if_splits)
  from assms(1) st ws have inv: "n \<le> capacity" "length ws = capacity"
    "\<forall>w. Some w \<in> set ws \<longrightarrow> w \<in> A"
    by (simp_all add: collect_inv_def)
  have upd: "\<And>x w. Some w \<in> set (ws[n := x]) \<Longrightarrow> x = Some w \<or> Some w \<in> set ws"
    using set_update_subset_insert[of ws n] by blast
  show ?thesis
  proof (cases rule: malloc_cases[of h])
    case (1 h')
    with assms(3) st ws
    have r: "b = False" "st' = (Some (ws[n := Some prefix]), n + 1, capacity, h')"
      by simp_all
    from inv ws(2) assms(2) upd[of _ "Some prefix"] show ?thesis
      unfolding r by (auto simp: collect_inv_def)
  next
    case (2 h')
    with assms(3) st ws
    have r: "b = False" "st' = (Some (ws[n := None]), n, capacity, h')"
      by simp_all
    from inv upd[of _ None] show ?thesis
      unfolding r by (auto simp: collect_inv_def)
  qed
qed

lemma store_word_inv:
  assumes "collect_inv A st" and "prefix \<in> A" and "store_word prefix st = Inr (b, st')"
  shows "collect_inv A st'"
proof -
  obtain words n capacity h where st: "st = (words, n, capacity, h)"
    by (cases st)
  from assms(1) st have inv: "n \<le> capacity"
    "\<forall>ws. words = Some ws \<longrightarrow> length ws = capacity \<and> (\<forall>w. Some w \<in> set ws \<longrightarrow> w \<in> A)"
    by (simp_all add: collect_inv_def)
  show ?thesis
  proof (cases "n \<ge> capacity")
    case False
    with assms(3) st have "write_word prefix st = Inr (b, st')" by simp
    from write_word_inv[OF assms(1,2) this] show ?thesis by simp
  next
    case True
    show ?thesis
    proof (cases rule: realloc_words_cases[of h words "capacity * 2"])
      case (1 h')
      with assms(3) st True have "st' = (None, n, capacity * 2, h')" by simp
      with inv(1) show ?thesis by (simp add: collect_inv_def)
    next
      case (2 ws h')
      from 2(3) inv(2) have "\<forall>w. Some w \<in> set ws \<longrightarrow> w \<in> A"
        by (cases words) auto
      with 2(2) inv(1) have "collect_inv A (Some ws, n, capacity * 2, h')"
        by (simp add: collect_inv_def)
      moreover from assms(3) st True 2(1)
      have "write_word prefix (Some ws, n, capacity * 2, h') = Inr (b, st')" by simp
      ultimately show ?thesis using write_word_inv[OF _ assms(2)] by blast
    qed
  qed
qed

lemma fold_fault:
  assumes "\<And>x f. F x (Inl f) = Inl f"
  shows "fold F xs (Inl f) = Inl f"
  by (induction xs) (simp_all add: assms)

lemma fold_children_inv:
  assumes step: "\<And>x st st'. x \<in> set xs \<Longrightarrow> P st \<Longrightarrow> F x (Inr st) = Inr st' \<Longrightarrow> P st'"
    and fault: "\<And>x f. F x (Inl f) = Inl f"
    and "P st" and "fold F xs (Inr st) = Inr st'"
  shows "P st'"
  using step assms(3,4)
proof (induction xs arbitrary: st)
  case Nil
  then show ?case by simp
next
  case (Cons x xs)
  show ?case
  proof (cases "F x (Inr st)")
    case (Inl f)
    with Cons.prems(3) fold_fault[of F xs f, OF fault] show ?thesis by simp
  next
    case (Inr st1)
    have "P st1" by (rule Cons.prems(1)[OF _ Cons.prems(2) Inr]) simp
    moreover from Cons.prems(3) Inr have "fold F xs (Inr st1) = Inr st'" by simp
    ultimately show ?thesis
      using Cons.IH[of st1] Cons.prems(1) by (metis list.set_intros(2))
  qed
qed

lemma stored_words_flagged: "[] \<in> stored_words (TrieNode cs True wc)"
  by (simp add: stored_words_def)

lemma stored_words_child:
  assumes "length cs = 26" and "(i, Some m) \<in> set (zip [0..<26] cs)" and "w \<in> stored_words m"
  shows "letter i # w \<in> stored_words (TrieNode cs e wc)"
proof -
  from assms(2,3) have "letter i # w \<in>
      (\<Union>(i, child) \<in> set (zip [0..<26] cs). (#) (letter i) ` stored_opt child)"
    by (force simp: stored_opt_def)
  then show ?thesis unfolding stored_words_node[OF assms(1)] by blast
qed

lemma collect_node_inv:
  assumes "wf_node n" and "(@) p ` stored_words n \<subseteq> A" and "collect_inv A st"
    and "trie_collect_words (Some n) p st = Inr st'"
  shows "collect_inv A st'"
  using assms
proof (induction n arbitrary: p st st')
  case (TrieNode cs e wc)
  from TrieNode.prems(1) have len: "length cs = 26"
    and wfc: "\<And>m. Some m \<in> set cs \<Longrightarrow> wf_node m"
    by auto
  define F where "F = (\<lambda>(i :: nat, child) r.
                  case r of
                    Inl f \<Rightarrow> Inl f
                  | Inr (words, count', capacity, h) \<Rightarrow>
                      if child \<noteq> None
                      then (case malloc h of
                              (False, h') \<Rightarrow> Inr (words, count', capacity, h')
                            | (True, h') \<Rightarrow>
                                trie_collect_words child
                                  (p @ [char_of (of_char CHR ''a'' + i)])
                                  (words, count', capacity, h'))
                      else Inr (words, count', capacity, h))"
  define X where "X = (if e then store_word p st else Inr (False, st))"
  have unfold: "trie_collect_words (Some (TrieNode cs e wc)) p st =
     (case X of
        Inl f \<Rightarrow> Inl f
      | Inr (True, st1) \<Rightarrow> Inr st1
      | Inr (False, st1) \<Rightarrow> fold F (zip [0..<26] cs) (Inr st1))"
    unfolding X_def F_def by simp
  from TrieNode.prems(4) unfold obtain b st1 where X: "X = Inr (b, st1)"
    by (cases X) (auto split: prod.splits)
  have inv1: "collect_inv A st1"
  proof (cases e)
    case True
    have "p \<in> A"
      using TrieNode.prems(2) stored_words_flagged[of cs wc] True by auto
    moreover from X True have "store_word p st = Inr (b, st1)" by (simp add: X_def)
    ultimately show ?thesis using store_word_inv[OF TrieNode.prems(3)] by blast
  next
    case False
    with X TrieNode.prems(3) show ?thesis by (simp add: X_def)
  qed
  show ?case
  proof (cases b)
    case True
    with TrieNode.prems(4) unfold X have "st' = st1" by simp
    with inv1 show ?thesis by simp
  next
    case False
    with TrieNode.prems(4) unfold X have fold: "fold F (zip [0..<26] cs) (Inr st1) = Inr st'"
      by simp
    have fault: "\<And>x f. F x (Inl f) = Inl f"
      by (simp add: F_def split: prod.splits)
    have step: "\<And>x s s'. x \<in> set (zip [0..<26] cs) \<Longrightarrow> collect_inv A s \<Longrightarrow>
                  F x (Inr s) = Inr s' \<Longrightarrow> collect_inv A s'"
    proof -
      fix x s s'
      assume x: "x \<in> set (zip [0..<26] cs)" and s: "collect_inv A s"
        and r: "F x (Inr s) = Inr s'"
      obtain i child where ic: "x = (i, child)" by (cases x)
      obtain words k capacity h where sd: "s = (words, k, capacity, h)" by (cases s)
      show "collect_inv A s'"
      proof (cases child)
        case None
        with r ic sd s show ?thesis by (simp add: F_def)
      next
        case (Some m)
        from x ic Some have mem: "(i, Some m) \<in> set (zip [0..<26] cs)" by simp
        then have m: "Some m \<in> set cs" by (rule set_zip_rightD)
        show ?thesis
        proof (cases rule: malloc_cases[of h])
          case (2 h')
          with r ic sd Some have "s' = (words, k, capacity, h')" by (simp add: F_def)
          with s sd show ?thesis by (simp add: collect_inv_def)
        next
          case (1 h')
          with r ic sd Some
          have call: "trie_collect_words (Some m) (p @ [letter i]) (words, k, capacity, h') = Inr s'"
            by (simp add: F_def letter_def)
          have sub: "(@) (p @ [letter i]) ` stored_words m \<subseteq> A"
          proof
            fix v assume "v \<in> (@) (p @ [letter i]) ` stored_words m"
            then obtain w where w: "w \<in> stored_words m" "v = p @ letter i # w" by auto
            from stored_words_child[OF len mem w(1), of e wc] TrieNode.prems(2) w(2)
            show "v \<in> A" by auto
          qed
          have s1: "collect_inv A (words, k, capacity, h')"
            using s sd by (simp add: collect_inv_def)
          show ?thesis
            by (rule TrieNode.IH[OF m _ wfc[OF m] sub s1 call]) simp
        qed
      qed
    qed
    show ?thesis
      by (rule fold_children_inv[of "zip [0..<26] cs" "collect_inv A" F, OF step fault inv1 fold])
  qed
qed

lemma trie_get_all_words_sound:
  assumes "wf_node (root t)" and "trie_get_all_words h (Some t) = Inr ((Some ws, n), h')"
  shows "n \<le> length ws \<and> (\<forall>w. Some w \<in> set ws \<longrightarrow> w \<in> stored_words (root t))"
proof -
  from assms(2) obtain h1 where h1: "malloc h = (True, h1)"
    by (cases rule: malloc_cases[of h]) (simp_all add: trie_get_all_words_def)
  from assms(2) h1 obtain h2 where h2: "malloc h1 = (True, h2)"
    by (cases rule: malloc_cases[of h1]) (simp_all add: trie_get_all_words_def)
  define st0 :: collect_state where "st0 = (Some (replicate 100 None), 0, 100, h2)"
  from assms(2) h1 h2 obtain st' where
    run: "trie_collect_words (Some (root t)) [] st0 = Inr st'"
    by (cases "trie_collect_words (Some (root t)) [] st0")
       (simp_all add: trie_get_all_words_def st0_def)
  have "collect_inv (stored_words (root t)) st0"
    by (simp add: collect_inv_def st0_def)
  from collect_node_inv[OF assms(1) _ this run]
  have inv: "collect_inv (stored_words (root t)) st'" by simp
  obtain words k capacity h3 where st': "st' = (words, k, capacity, h3)" by (cases st')
  from assms(2) h1 h2 run st' have "words = Some ws" "k = n"
    by (auto simp: trie_get_all_words_def st0_def split: if_splits)
  with inv st' show ?thesis by (simp add: collect_inv_def)
qed

text \<open>
  When no allocation fails, the traversal does not fault, the array is never NULL and
  every cell below \<open>count\<close> holds a word.
\<close>

lemma write_word_ready:
  assumes "collect_inv A (Some ws, n, capacity, h)" and "n < capacity" and "no_failure h"
    and "\<forall>i < n. ws ! i \<noteq> None"
  shows "\<exists>st'. write_word prefix (Some ws, n, capacity, h) = Inr (False, st') \<and>
               collect_ready st'"
proof -
  from assms(1) have len: "length ws = capacity" by (simp add: collect_inv_def)
  from assms(3) obtain h' where h': "malloc h = (True, h')" "no_failure h'"
    by (rule malloc_no_failure)
  have cells: "\<forall>i < n + 1. i < length (ws[n := Some prefix]) \<and> ws[n := Some prefix] ! i \<noteq> None"
    using assms(2,4) len by (auto simp: nth_list_update)
  have "write_word prefix (Some ws, n, capacity, h) =
        Inr (False, (Some (ws[n := Some prefix]), n + 1, capacity, h'))"
    using assms(2) len h'(1) by simp
  moreover have "collect_ready (Some (ws[n := Some prefix]), n + 1, capacity, h')"
    using assms(2) h'(2) cells by (simp add: collect_ready_def)
  ultimately show ?thesis by blast
qed

lemma store_word_ready:
  assumes "collect_inv A st" and "collect_ready st"
  shows "\<exists>st'. store_word prefix st = Inr (False, st') \<and> collect_ready st'"
proof -
  obtain words n capacity h where st: "st = (words, n, capacity, h)"
    by (cases st)
  from assms(2) st obtain ws where ws: "words = Some ws" "0 < capacity" "no_failure h"
    "\<forall>i < n. ws ! i \<noteq> None"
    by (auto simp: collect_ready_def)
  from assms(1) st ws(1) have inv: "n \<le> capacity" "length ws = capacity"
    "\<forall>w. Some w \<in> set ws \<longrightarrow> w \<in> A"
    by (simp_all add: collect_inv_def)
  show ?thesis
  proof (cases "n \<ge> capacity")
    case False
    then have "store_word prefix st = write_word prefix (Some ws, n, capacity, h)"
      using st ws(1) by simp
    moreover have "n < capacity" using False by simp
    ultimately show ?thesis
      using write_word_ready[OF assms(1)[unfolded st ws(1)] _ ws(3,4), of prefix] by simp
  next
    case True
    from ws(3) obtain h' where h': "malloc h = (True, h')" "no_failure h'"
      by (rule malloc_no_failure)
    define ws' where "ws' = ws @ replicate capacity (None :: string option)"
    have re: "realloc_words h words (capacity * 2) = (Some ws', h')"
      using h'(1) ws(1) inv(2) by (simp add: realloc_words_def ws'_def)
    have inv': "collect_inv A (Some ws', n, capacity * 2, h')"
      using inv by (auto simp: collect_inv_def ws'_def)
    have cells: "\<forall>i < n. ws' ! i \<noteq> None"
      using ws(4) inv(1,2) by (simp add: ws'_def nth_append)
    have "store_word prefix st = write_word prefix (Some ws', n, capacity * 2, h')"
      using st True re by simp
    moreover have "n < capacity * 2" using inv(1) ws(2) by simp
    ultimately show ?thesis
      using write_word_ready[OF inv' _ h'(2) cells, of prefix] by simp
  qed
qed

lemma fold_children_ready:
  assumes step: "\<And>x st. x \<in> set xs \<Longrightarrow> P st \<Longrightarrow> \<exists>st'. F x (Inr st) = Inr st' \<and> P st'"
    and "P st"
  shows "\<exists>st'. fold F xs (Inr st) = Inr st' \<and> P st'"
  using assms
proof (induction xs arbitrary: st)
  case Nil
  then show ?case by simp
next
  case (Cons x xs)
  from Cons.prems(1)[of x st] Cons.prems(2) obtain st1 where
    st1: "F x (Inr st) = Inr st1" "P st1"
    by auto
  have "\<exists>st'. fold F xs (Inr st1) = Inr st' \<and> P st'"
    by (rule Cons.IH[OF _ st1(2)]) (simp add: Cons.prems(1))
  with st1(1) show ?case by simp
qed

lemma collect_ready_heap:
  assumes "collect_ready (words, n, capacity, h)" and "no_failure h'"
  shows "collect_ready (words, n, capacity, h')"
  using assms by (simp add: collect_ready_def)

lemma collect_node_ready:
  assumes "wf_node n" and "collect_inv UNIV st" and "collect_ready st"
  shows "\<exists>st'. trie_collect_words (Some n) p st = Inr st' \<and>
               collect_inv UNIV st' \<and> collect_ready st'"
  using assms
proof (induction n arbitrary: p st)
  case (TrieNode cs e wc)
  from TrieNode.prems(1) have wfc: "\<And>m. Some m \<in> set cs \<Longrightarrow> wf_node m"
    by auto
  define P where "P = (\<lambda>s. collect_inv UNIV s \<and> collect_ready s)"
  define F where "F = (\<lambda>(i :: nat, child) r.
                  case r of
                    Inl f \<Rightarrow> Inl f
                  | Inr (words, count', capacity, h) \<Rightarrow>
                      if child \<noteq> None
                      then (case malloc h of
                              (False, h') \<Rightarrow> Inr (words, count', capacity, h')
                            | (True, h') \<Rightarrow>
                                trie_collect_words child
                                  (p @ [char_of (of_char CHR ''a'' + i)])
                                  (words, count', capacity, h'))
                      else Inr (words, count', capacity, h))"
  define X where "X = (if e then store_word p st else Inr (False, st))"
  have unfold: "trie_collect_words (Some (TrieNode cs e wc)) p st =
     (case X of
        Inl f \<Rightarrow> Inl f
      | Inr (True, st1) \<Rightarrow> Inr st1
      | Inr (False, st1) \<Rightarrow> fold F (zip [0..<26] cs) (Inr st1))"
    unfolding X_def F_def by simp
  have "\<exists>st1. X = Inr (False, st1) \<and> P st1"
  proof (cases e)
    case True
    from store_word_ready[OF TrieNode.prems(2,3), of p] obtain st1 where
      st1: "store_word p st = Inr (False, st1)" "collect_ready st1"
      by blast
    from store_word_inv[OF TrieNode.prems(2) _ st1(1)] have "collect_inv UNIV st1" by simp
    with st1 True show ?thesis by (simp add: X_def P_def)
  next
    case False
    with TrieNode.prems(2,3) show ?thesis by (simp add: X_def P_def)
  qed
  then obtain st1 where X: "X = Inr (False, st1)" and P1: "P st1"
    by blast
  have step: "\<And>x s. x \<in> set (zip [0..<26] cs) \<Longrightarrow> P s \<Longrightarrow>
                \<exists>s'. F x (Inr s) = Inr s' \<and> P s'"
  proof -
    fix x s
    assume x: "x \<in> set (zip [0..<26] cs)" and s: "P s"
    obtain i child where ic: "x = (i, child)" by (cases x)
    obtain words k capacity h where sd: "s = (words, k, capacity, h)" by (cases s)
    show "\<exists>s'. F x (Inr s) = Inr s' \<and> P s'"
    proof (cases child)
      case None
      with ic sd s show ?thesis by (simp add: F_def)
    next
      case (Some m)
      from x ic Some have "(i, Some m) \<in> set (zip [0..<26] cs)" by simp
      then have m: "Some m \<in> set cs" by (rule set_zip_rightD)
      from s sd have "no_failure h" by (simp add: P_def collect_ready_def)
      then obtain h' where h': "malloc h = (True, h')" "no_failure h'"
        by (rule malloc_no_failure)
      have s1: "collect_inv UNIV (words, k, capacity, h')"
        using s sd by (simp add: P_def collect_inv_def)
      from s sd have "collect_ready (words, k, capacity, h)" by (simp add: P_def)
      then have s2: "collect_ready (words, k, capacity, h')"
        using h'(2) by (rule collect_ready_heap)
      have "\<exists>s'. trie_collect_words (Some m) (p @ [char_of (of_char CHR ''a'' + i)])
                    (words, k, capacity, h') = Inr s' \<and>
                  collect_inv UNIV s' \<and> collect_ready s'"
        by (rule TrieNode.IH[OF m _ wfc[OF m] s1 s2]) simp
      then obtain s' where "trie_collect_words (Some m) (p @ [char_of (of_char CHR ''a'' + i)])
                         (words, k, capacity, h') = Inr s'" "P s'"
        by (auto simp: P_def)
      with ic sd Some h'(1) show ?thesis by (simp add: F_def)
    qed
  qed
  from fold_children_ready[of "zip [0..<26] cs" P F, OF step P1]
  obtain st' where "fold F (zip [0..<26] cs) (Inr st1) = Inr st'" "P st'"
    by blast
  with unfold X show ?case by (simp add: P_def)
qed

lemma trie_get_all_words_ready:
  assumes "wf_node (root t)" and "no_failure h"
  shows "\<exists>words n h'. trie_get_all_words h (Some t) = Inr ((words, n), h') \<and> no_failure h' \<and>
           (\<forall>ws. words = Some ws \<longrightarrow> (\<forall>i < n. ws ! i \<noteq> None))"
proof -
  from assms(2) obtain h1 where h1: "malloc h = (True, h1)" "no_failure h1"
    by (rule malloc_no_failure)
  from h1(2) obtain h2 where h2: "malloc h1 = (True, h2)" "no_failure h2"
    by (rule malloc_no_failure)
  define st0 :: collect_state where "st0 = (Some (replicate 100 None), 0, 100, h2)"
  have "collect_inv UNIV st0" "collect_ready st0"
    using h2(2) by (simp_all add: collect_inv_def collect_ready_def st0_def)
  from collect_node_ready[OF assms(1) this, of "[]"] obtain st' where
    run: "trie_collect_words (Some (root t)) [] st0 = Inr st'" and ready: "collect_ready st'"
    by blast
  obtain words k capacity h3 where st': "st' = (words, k, capacity, h3)" by (cases st')
  from ready st' have r: "no_failure h3" "\<forall>ws. words = Some ws \<longrightarrow> (\<forall>i < k. ws ! i \<noteq> None)"
    by (auto simp: collect_ready_def)
  have "trie_get_all_words h (Some t) =
        (if k = 0 then Inr ((None, k), h3) else Inr ((words, k), h3))"
    using h1(1) h2(1) run st' by (simp add: trie_get_all_words_def st0_def)
  with r show ?thesis by (cases "k = 0") auto
qed

text \<open>
  The unchecked path of the enumeration. When the array is full and \<open>realloc\<close> fails, the
  block of a flagged node returns with the NULL array and the doubled capacity; the
  traversal goes on, and the block of the next flagged node writes through the NULL
  array.
\<close>

lemma failed_realloc_then_fault:
  "store_word prefix (Some ws, n, n, False # h) = Inr (True, (None, n, n * 2, h))"
  "0 < n \<Longrightarrow> store_word prefix' (None, n, n * 2, h') = Inl InvalidWrite"
  by (simp_all add: realloc_words_def)

lemma compute_edit_distance_heap:
  "compute_edit_distance h a b = - 1 \<or>
   compute_edit_distance h a b = compute_edit_distance [] a b"
  by (cases a; cases b)
     (auto simp: compute_edit_distance_def Let_def split: prod.splits)

lemma no_failure_Nil: "no_failure []"
  by (simp add: no_failure_def)

lemma compute_edit_distance_no_failure:
  assumes "no_failure h"
  shows "compute_edit_distance h a b = compute_edit_distance [] a b"
proof (cases "\<exists>x y. a = Some x \<and> b = Some y")
  case True
  then obtain x y where "a = Some x" "b = Some y" by blast
  with compute_edit_distance_lev[OF assms, of x y]
       compute_edit_distance_lev[OF no_failure_Nil, of x y]
  show ?thesis by simp
next
  case False
  then show ?thesis
    by (cases a; cases b) (simp_all add: compute_edit_distance_def)
qed

lemma after_edit_distance_no_failure:
  assumes "no_failure h"
  shows "no_failure (after_edit_distance h a b)"
proof -
  from assms obtain h1 where h1: "malloc h = (True, h1)" "no_failure h1"
    by (rule malloc_no_failure)
  from h1(2) obtain h2 where h2: "malloc h1 = (True, h2)" "no_failure h2"
    by (rule malloc_no_failure)
  from assms h1(1) h2 show ?thesis
    by (cases a; cases b) (simp_all add: after_edit_distance_def)
qed

lemma safe_strdup_cases:
  "fst (safe_strdup h c) = None \<or> fst (safe_strdup h c) = c"
  by (cases c) (auto simp: safe_strdup_def split: prod.splits)

lemma safe_strdup_no_failure:
  assumes "no_failure h"
  shows "fst (safe_strdup h c) = c \<and> no_failure (snd (safe_strdup h c))"
proof -
  from assms obtain h1 where "malloc h = (True, h1)" "no_failure h1"
    by (rule malloc_no_failure)
  with assms show ?thesis
    by (cases c) (simp_all add: safe_strdup_def)
qed

lemma candidate_step_sound:
  assumes "candidate_step q ws i (cands, h) = (cands', h')"
  shows "cands' = cands \<or>
         (\<exists>w copy. ws ! i = Some w \<and> in_band q w \<and>
                    cands' = cands @ [(copy, query_distance q w)] \<and>
                    (copy = None \<or> copy = Some w))"
proof -
  define d where "d = compute_edit_distance h (Some q) (ws ! i)"
  define h1 where "h1 = after_edit_distance h (Some q) (ws ! i)"
  have step: "candidate_step q ws i (cands, h) =
              (if d \<le> 2 \<and> d > 0
               then (cands @ [(fst (safe_strdup h1 (ws ! i)), d)], snd (safe_strdup h1 (ws ! i)))
               else (cands, h1))"
    by (simp add: candidate_step_def Let_def d_def h1_def case_prod_beta)
  show ?thesis
  proof (cases "d \<le> 2 \<and> d > 0")
    case False
    with assms step show ?thesis by simp
  next
    case True
    with assms step have c: "cands' = cands @ [(fst (safe_strdup h1 (ws ! i)), d)]"
      by simp
    from True have "d \<noteq> - 1" by simp
    then obtain w where w: "ws ! i = Some w"
      by (cases "ws ! i") (simp_all add: d_def compute_edit_distance_def)
    from compute_edit_distance_heap[of h "Some q" "Some w"] \<open>d \<noteq> - 1\<close> w
    have dq: "d = query_distance q w"
      by (simp add: d_def query_distance_def)
    with True have "in_band q w" by (simp add: in_band_def)
    with c w dq safe_strdup_cases[of h1 "ws ! i"] show ?thesis by auto
  qed
qed

lemma candidate_step_ready:
  assumes "no_failure h" and "candidate_step q ws i (cands, h) = (cands', h')"
  shows "no_failure h' \<and> (cands' = cands \<or> (\<exists>d. cands' = cands @ [(ws ! i, d)]))"
proof -
  define d where "d = compute_edit_distance h (Some q) (ws ! i)"
  define h1 where "h1 = after_edit_distance h (Some q) (ws ! i)"
  have step: "candidate_step q ws i (cands, h) =
              (if d \<le> 2 \<and> d > 0
               then (cands @ [(fst (safe_strdup h1 (ws ! i)), d)], snd (safe_strdup h1 (ws ! i)))
               else (cands, h1))"
    by (simp add: candidate_step_def Let_def d_def h1_def case_prod_beta)
  have h1: "no_failure h1"
    unfolding h1_def by (rule after_edit_distance_no_failure[OF assms(1)])
  from safe_strdup_no_failure[OF h1, of "ws ! i"] assms(2) step h1
  show ?thesis by (auto split: if_splits)
qed

lemma collect_candidates_Suc:
  "collect_candidates q ws (Suc n) h = candidate_step q ws n (collect_candidates q ws n h)"
  by (simp add: collect_candidates_def)

lemma collect_candidates_sound:
  assumes "n \<le> length ws"
  shows "\<forall>x \<in> set (fst (collect_candidates q ws n h)).
           \<exists>w. Some w \<in> set ws \<and> in_band q w \<and> snd x = query_distance q w \<and>
               (fst x = None \<or> fst x = Some w)"
  using assms
proof (induction n)
  case 0
  show ?case by (simp add: collect_candidates_def)
next
  case (Suc n)
  obtain cands h1 where c: "collect_candidates q ws n h = (cands, h1)"
    by (cases "collect_candidates q ws n h")
  obtain cands' h' where c': "candidate_step q ws n (cands, h1) = (cands', h')"
    by (cases "candidate_step q ws n (cands, h1)")
  from Suc c have ih: "\<forall>x \<in> set cands.
           \<exists>w. Some w \<in> set ws \<and> in_band q w \<and> snd x = query_distance q w \<and>
               (fst x = None \<or> fst x = Some w)"
    by simp
  from Suc.prems have mem: "ws ! n \<in> set ws" by simp
  have "\<forall>x \<in> set cands'.
           \<exists>w. Some w \<in> set ws \<and> in_band q w \<and> snd x = query_distance q w \<and>
               (fst x = None \<or> fst x = Some w)"
  proof (cases "cands' = cands")
    case True
    with ih show ?thesis by simp
  next
    case False
    with candidate_step_sound[OF c'] obtain w copy where
      w: "ws ! n = Some w" "in_band q w" "cands' = cands @ [(copy, query_distance q w)]"
         "copy = None \<or> copy = Some w"
      by blast
    from mem w(1) have "Some w \<in> set ws" by simp
    with w(2,4) have new: "\<exists>w'. Some w' \<in> set ws \<and> in_band q w' \<and>
        snd (copy, query_distance q w) = query_distance q w' \<and>
        (fst (copy, query_distance q w) = None \<or> fst (copy, query_distance q w) = Some w')"
      by auto
    show ?thesis
    proof
      fix x assume "x \<in> set cands'"
      with w(3) have "x \<in> set cands \<or> x = (copy, query_distance q w)" by auto
      with ih new show "\<exists>w. Some w \<in> set ws \<and> in_band q w \<and> snd x = query_distance q w \<and>
               (fst x = None \<or> fst x = Some w)"
        by blast
    qed
  qed
  with c c' show ?case by (simp add: collect_candidates_Suc)
qed

lemma collect_candidates_ready:
  assumes "no_failure h" and "\<forall>i < n. ws ! i \<noteq> None"
  shows "no_failure (snd (collect_candidates q ws n h)) \<and>
         (\<forall>x \<in> set (fst (collect_candidates q ws n h)). fst x \<noteq> None)"
  using assms(2)
proof (induction n)
  case 0
  show ?case using assms(1) by (simp add: collect_candidates_def)
next
  case (Suc n)
  obtain cands h1 where c: "collect_candidates q ws n h = (cands, h1)"
    by (cases "collect_candidates q ws n h")
  obtain cands' h' where c': "candidate_step q ws n (cands, h1) = (cands', h')"
    by (cases "candidate_step q ws n (cands, h1)")
  from Suc c have ih: "no_failure h1" "\<forall>x \<in> set cands. fst x \<noteq> None"
    by simp_all
  from Suc.prems have cell: "ws ! n \<noteq> None" by simp
  from candidate_step_ready[OF ih(1) c']
  have r: "no_failure h'" "cands' = cands \<or> (\<exists>d. cands' = cands @ [(ws ! n, d)])"
    by simp_all
  have "\<forall>x \<in> set cands'. fst x \<noteq> None"
  proof (cases "cands' = cands")
    case True
    with ih(2) show ?thesis by simp
  next
    case False
    with r(2) obtain d where "cands' = cands @ [(ws ! n, d)]" by blast
    with ih(2) cell show ?thesis by (auto simp del: not_None_eq)
  qed
  with r(1) c c' show ?case by (simp add: collect_candidates_Suc)
qed

lemma generate_suggestions_run:
  assumes "generate_suggestions h (Some q) (Some t) = Inr (Some s)"
  obtains all_words n h1 h2 cands h3 where
    "trie_get_all_words h (Some t) = Inr ((Some all_words, n), h1)"
    "collect_candidates q all_words n h2 = (cands, h3)"
    "cands \<noteq> []"
    "s = map fst (take (if length cands < 5 then length cands else 5) (bubble_sort cands))"
proof -
  from assms obtain aw n h1 where
    g: "trie_get_all_words h (Some t) = Inr ((aw, n), h1)"
    by (cases "trie_get_all_words h (Some t)") (auto simp: generate_suggestions_def)
  from assms g obtain all_words where aw: "aw = Some all_words"
    by (cases aw) (auto simp: generate_suggestions_def)
  obtain ok h2 where m: "malloc h1 = (ok, h2)" by (cases "malloc h1")
  obtain cands h3 where c: "collect_candidates q all_words n h2 = (cands, h3)"
    by (cases "collect_candidates q all_words n h2")
  obtain ok' h4 where m': "malloc h3 = (ok', h4)" by (cases "malloc h3")
  from assms g aw m c m'
  have "cands \<noteq> [] \<and>
        s = map fst (take (if length cands < 5 then length cands else 5) (bubble_sort cands))"
    by (auto simp: generate_suggestions_def Let_def split: if_splits bool.splits)
  with g aw c show ?thesis by (intro that[of all_words n h1 h2 cands h3]) simp_all
qed

lemma sorted_suggested_words:
  assumes "sorted (map snd xs)"
    and "\<forall>x \<in> set xs. \<forall>w. fst x = Some w \<longrightarrow> snd x = d w"
  shows "sorted (map d (suggested_words (map fst xs)))"
proof -
  have "map d (suggested_words (map fst xs)) = map snd (filter (\<lambda>x. fst x \<noteq> None) xs)"
    using assms(2) by (induction xs) (auto simp: suggested_words_def)
  with sorted_filter[OF assms(1), of "\<lambda>x. fst x \<noteq> None"] show ?thesis by simp
qed

text \<open>
  On every run that returns, with or without failed allocations: the array has at most 5
  cells, every cell that is not NULL is a word stored in the dictionary at distance 1 or 2
  from the query, these words are in ascending order of distance, and the array is NULL
  when no stored word is at distance 1 or 2.
\<close>

lemma generate_suggestions_sound:
  assumes wf: "wf_node (root t)"
    and run: "generate_suggestions h (Some q) (Some t) = Inr r"
  shows "length (suggestion_list r) \<le> 5"
    and "\<forall>w. Some w \<in> set (suggestion_list r) \<longrightarrow>
           w \<in> stored_words (root t) \<and> 1 \<le> query_distance q w \<and> query_distance q w \<le> 2"
    and "sorted (map (query_distance q) (suggested_words (suggestion_list r)))"
    and "(\<forall>w \<in> stored_words (root t). \<not> (1 \<le> query_distance q w \<and> query_distance q w \<le> 2))
         \<longrightarrow> suggestion_list r = []"
proof -
  have "length (suggestion_list r) \<le> 5 \<and>
    (\<forall>w. Some w \<in> set (suggestion_list r) \<longrightarrow>
           w \<in> stored_words (root t) \<and> 1 \<le> query_distance q w \<and> query_distance q w \<le> 2) \<and>
    sorted (map (query_distance q) (suggested_words (suggestion_list r))) \<and>
    ((\<forall>w \<in> stored_words (root t). \<not> (1 \<le> query_distance q w \<and> query_distance q w \<le> 2))
         \<longrightarrow> suggestion_list r = [])"
  proof (cases r)
    case None
    then show ?thesis by (simp add: suggestion_list_def suggested_words_def)
  next
    case (Some s)
    with run have "generate_suggestions h (Some q) (Some t) = Inr (Some s)" by simp
    then obtain all_words n h1 h2 cands h3 where
      g: "trie_get_all_words h (Some t) = Inr ((Some all_words, n), h1)"
      and c: "collect_candidates q all_words n h2 = (cands, h3)"
      and ne: "cands \<noteq> []"
      and s: "s = map fst (take (if length cands < 5 then length cands else 5) (bubble_sort cands))"
      by (rule generate_suggestions_run)
    define k where "k = (if length cands < 5 then length cands else 5)"
    define srt where "srt = bubble_sort cands"
    from trie_get_all_words_sound[OF wf g]
    have aw: "n \<le> length all_words"
      "\<forall>w. Some w \<in> set all_words \<longrightarrow> w \<in> stored_words (root t)"
      by simp_all
    from collect_candidates_sound[OF aw(1), of q h2] c
    have cs: "\<forall>x \<in> set cands. \<exists>w. Some w \<in> set all_words \<and> in_band q w \<and>
                snd x = query_distance q w \<and> (fst x = None \<or> fst x = Some w)"
      by simp
    have srt: "sorted (map snd srt)" "mset srt = mset cands"
      using bubble_sort_sorted[of cands] by (simp_all add: srt_def)
    from srt(2) have set_srt: "set srt = set cands" by (rule mset_eq_setD)
    have sl: "suggestion_list r = map fst (take k srt)"
      using Some s by (simp add: suggestion_list_def k_def srt_def)
    have member: "\<And>x. x \<in> set (take k srt) \<Longrightarrow>
        \<exists>w. w \<in> stored_words (root t) \<and> in_band q w \<and>
            snd x = query_distance q w \<and> (fst x = None \<or> fst x = Some w)"
    proof -
      fix x assume "x \<in> set (take k srt)"
      then have "x \<in> set srt" by (rule in_set_takeD)
      then have "x \<in> set cands" by (simp only: set_srt)
      with cs obtain w where "Some w \<in> set all_words" "in_band q w"
        "snd x = query_distance q w" "fst x = None \<or> fst x = Some w"
        by blast
      with aw(2) show "\<exists>w. w \<in> stored_words (root t) \<and> in_band q w \<and>
            snd x = query_distance q w \<and> (fst x = None \<or> fst x = Some w)"
        by blast
    qed
    have p1: "length (suggestion_list r) \<le> 5"
      unfolding sl by (auto simp: k_def min_def)
    have p2: "\<forall>w. Some w \<in> set (suggestion_list r) \<longrightarrow>
           w \<in> stored_words (root t) \<and> 1 \<le> query_distance q w \<and> query_distance q w \<le> 2"
    proof (intro allI impI)
      fix w assume "Some w \<in> set (suggestion_list r)"
      then obtain x where x: "x \<in> set (take k srt)" "fst x = Some w"
        unfolding sl by auto
      from member[OF x(1)] x(2)
      show "w \<in> stored_words (root t) \<and> 1 \<le> query_distance q w \<and> query_distance q w \<le> 2"
        by (auto simp: in_band_def)
    qed
    have st: "sorted (map snd (take k srt))"
      using srt(1) by (simp add: take_map[symmetric] sorted_wrt_take)
    have "\<forall>x \<in> set (take k srt). \<forall>w. fst x = Some w \<longrightarrow> snd x = query_distance q w"
      using member by fastforce
    from sorted_suggested_words[OF st this]
    have p3: "sorted (map (query_distance q) (suggested_words (suggestion_list r)))"
      by (simp only: sl)
    have p4: "(\<forall>w \<in> stored_words (root t).
                 \<not> (1 \<le> query_distance q w \<and> query_distance q w \<le> 2))
              \<longrightarrow> suggestion_list r = []"
    proof
      assume none: "\<forall>w \<in> stored_words (root t).
                      \<not> (1 \<le> query_distance q w \<and> query_distance q w \<le> 2)"
      from ne obtain x where "x \<in> set cands" by (cases cands) auto
      with cs aw(2) obtain w where "w \<in> stored_words (root t)" "in_band q w" by blast
      with none have False by (auto simp: in_band_def)
      then show "suggestion_list r = []" ..
    qed
    from p1 p2 p3 p4 show ?thesis by blast
  qed
  then show "length (suggestion_list r) \<le> 5"
    and "\<forall>w. Some w \<in> set (suggestion_list r) \<longrightarrow>
           w \<in> stored_words (root t) \<and> 1 \<le> query_distance q w \<and> query_distance q w \<le> 2"
    and "sorted (map (query_distance q) (suggested_words (suggestion_list r)))"
    and "(\<forall>w \<in> stored_words (root t). \<not> (1 \<le> query_distance q w \<and> query_distance q w \<le> 2))
         \<longrightarrow> suggestion_list r = []"
    by blast+
qed

text \<open>
  A run without a failed allocation returns, and no cell of its array is NULL.
\<close>

lemma generate_suggestions_no_failure:
  assumes wf: "wf_node (root t)" and ok: "no_failure h"
  shows "\<exists>r. generate_suggestions h (Some q) (Some t) = Inr r \<and>
             None \<notin> set (suggestion_list r)"
proof -
  from trie_get_all_words_ready[OF wf ok] obtain words n h1 where
    g: "trie_get_all_words h (Some t) = Inr ((words, n), h1)" and h1: "no_failure h1"
    and cells: "\<forall>ws. words = Some ws \<longrightarrow> (\<forall>i < n. ws ! i \<noteq> None)"
    by blast
  show ?thesis
  proof (cases words)
    case None
    with g show ?thesis by (simp add: generate_suggestions_def suggestion_list_def)
  next
    case (Some all_words)
    from h1 obtain h2 where h2: "malloc h1 = (True, h2)" "no_failure h2"
      by (rule malloc_no_failure)
    obtain cands h3 where c: "collect_candidates q all_words n h2 = (cands, h3)"
      by (cases "collect_candidates q all_words n h2")
    from collect_candidates_ready[OF h2(2), of n all_words q] cells Some c
    have r: "no_failure h3" "\<forall>x \<in> set cands. fst x \<noteq> None"
      by simp_all
    from r(1) obtain h4 where h4: "malloc h3 = (True, h4)" "no_failure h4"
      by (rule malloc_no_failure)
    define k where "k = (if length cands < 5 then length cands else 5)"
    from bubble_sort_sorted[of cands] have "mset (bubble_sort cands) = mset cands" by simp
    then have set_srt: "set (bubble_sort cands) = set cands" by (rule mset_eq_setD)
    have "None \<notin> set (map fst (take k (bubble_sort cands)))"
    proof
      assume "None \<in> set (map fst (take k (bubble_sort cands)))"
      then obtain x where x: "x \<in> set (take k (bubble_sort cands))" "fst x = None" by auto
      from x(1) have "x \<in> set (bubble_sort cands)" by (rule in_set_takeD)
      with set_srt r(2) x(2) show False by blast
    qed
    moreover have "generate_suggestions h (Some q) (Some t) =
          (if n = 0 \<or> cands = [] then Inr None
           else Inr (Some (map fst (take k (bubble_sort cands)))))"
      using g Some h2(1) c h4(1) by (auto simp: generate_suggestions_def Let_def k_def)
    ultimately show ?thesis by (auto simp: suggestion_list_def)
  qed
qed

subsection \<open>Claims about the suggestion ranker and the orchestrator\<close>

text \<open>
  C2 on the code. The dictionary holds the single word "cat" and the query is "bat", at
  distance 1. When every allocation succeeds, \<open>generate_suggestions\<close> returns the array
  with the one suggestion "cat". When the allocation inside \<open>safe_strdup\<close> fails, the
  tenth request of the call, it still returns an array of length 1, and the cell of that
  array is NULL: the list that the caller receives holds an entry that is no dictionary
  word. On every run that returns, all other parts of the property hold, which
  \<open>generate_suggestions_sound\<close> shows, and a run without a failed allocation returns
  and has no NULL cell, which \<open>generate_suggestions_no_failure\<close> shows.
\<close>

theorem suggestion_array_holds_null:
  "trie_get_all_words [] cat_dictionary =
     Inr ((Some (Some ''cat'' # replicate 99 None), 1), []) \<and>
   query_distance ''bat'' ''cat'' = 1 \<and>
   generate_suggestions [] (Some ''bat'') cat_dictionary = Inr (Some [Some ''cat'']) \<and>
   generate_suggestions strdup_fails (Some ''bat'') cat_dictionary = Inr (Some [None])"
  by code_simp

text \<open>
  C4 on the code. The API client is initialised and the service would validate "world"
  (\<open>fetch_from_api\<close> returns 1 for it), yet \<open>spell_check_document\<close> reports "world" as an
  error and leaves the request counters of the client at zero: the oracle is not asked.
\<close>

theorem spell_check_skips_oracle:
  "is_api_initialized configured_api \<and>
   fst (fetch_from_api service_knows_world configured_api (Some ''world'')) = 1 \<and>
   \<not> trie_search hello_dictionary (Some ''world'') \<and>
   map misspelled_word
     (errors (the (fst (spell_check_document configured_api (Some world_document) hello_dictionary)))) =
     [Some ''world''] \<and>
   total_requests (g_stats (snd (spell_check_document configured_api (Some world_document)
     hello_dictionary))) = 0"
  by code_simp

end
